theory Spec2Isabelle
  imports Main "HOL-Library.Word"
begin

unbundle bit_operations_syntax

section \<open>The Robin Hood hash map of robinhood/robinhood.go\<close>

subsection \<open>Data model\<close>

text \<open>
  A slot of the table (\<^verbatim>\<open>type entry\<close>). The field \<^verbatim>\<open>value\<close> of the source is called
  \<open>val\<close> here; \<^verbatim>\<open>distance\<close> is a \<^verbatim>\<open>uint8\<close>, so it is an 8-bit word and \<open>+ 1\<close> wraps
  from 255 to 0 as it does in Go.
\<close>

record ('k, 'v) entry =
  key :: 'k
  val :: 'v
  distance :: "8 word"
  occupied :: bool

text \<open>
  The table (\<^verbatim>\<open>type RobinHoodMap\<close>). The fields \<^verbatim>\<open>size\<close> and \<^verbatim>\<open>mask\<close> carry the suffix
  \<open>_m\<close>. \<^verbatim>\<open>size\<close> is a Go \<^verbatim>\<open>int\<close>, modelled as an unbounded integer: in every state that
  the operations can produce it lies between 0 and the number of slots. \<^verbatim>\<open>mask\<close> is a
  \<^verbatim>\<open>uint64\<close>. The field \<^verbatim>\<open>loadFactor\<close> is set to 0.75 by the constructor and never
  assigned again; it appears as the constant in \<open>over_load\<close> below. The field
  \<^verbatim>\<open>hasher\<close> is a \<^verbatim>\<open>maphash.Hash\<close> whose seed is drawn when it is first used and kept by
  \<^verbatim>\<open>Reset\<close>, so \<^verbatim>\<open>m.hash\<close> is one fixed function from keys to 64-bit words for the
  lifetime of a table: the operations take it as the parameter \<open>h\<close>. Keys are the
  values of a type with its equality, so keys that are equal hash alike.
\<close>

record ('k, 'v) RobinHoodMap =
  entries :: "('k, 'v) entry list"
  size_m :: int
  mask_m :: "64 word"

text \<open>
  The two ways an operation can panic: an index beyond the slot array, and a \<^verbatim>\<open>make\<close>
  whose length cannot be allocated. An operation that returns yields \<open>Some (Inr r)\<close>, one
  that panics \<open>Some (Inl e)\<close>, and one whose loop never ends \<open>None\<close>.
\<close>

datatype error = IndexOutOfRange | MakeSliceLenOutOfRange

type_synonym 'a outcome = "(error + 'a) option"

text \<open>
  \<^verbatim>\<open>make([]entry[K, V], n)\<close> fills the array with zero values; \<open>zk\<close> and \<open>zv\<close> stand for
  the zero values of the key and value types.
\<close>

definition zero_entry :: "'k \<Rightarrow> 'v \<Rightarrow> ('k, 'v) entry" where
  "zero_entry zk zv = \<lparr>key = zk, val = zv, distance = 0, occupied = False\<rparr>"

text \<open>
  Go's \<^verbatim>\<open>make\<close> panics when the requested slice exceeds the address space of the
  runtime (\<open>2 ^ 48\<close> bytes on 64-bit platforms). A slot takes at least two bytes, so no
  slot array has more than \<open>2 ^ 47\<close> slots; the model lets every larger request fail and
  every other one succeed.
\<close>

definition max_slots :: nat where
  "max_slots = 2 ^ 47"

definition NewRobinHoodMap :: "'k \<Rightarrow> 'v \<Rightarrow> ('k, 'v) RobinHoodMap" where
  "NewRobinHoodMap zk zv =
     \<lparr>entries = replicate 8 (zero_entry zk zv), size_m = 0, mask_m = 7\<rparr>"

subsection \<open>Put and resize\<close>

text \<open>
  The test \<^verbatim>\<open>float64(m.size+1)/float64(len(m.entries)) > m.loadFactor\<close> with
  \<^verbatim>\<open>loadFactor = 0.75\<close>. For at most \<open>2 ^ 47\<close> slots and a size below \<open>2 ^ 53\<close> both
  conversions are exact and the rounded quotient exceeds 0.75 exactly when
  \<open>4 * (size + 1) > 3 * len\<close>. With no slots the quotient is \<open>+Inf\<close>, \<open>-Inf\<close> or \<open>NaN\<close>,
  and exceeds 0.75 exactly when \<open>size + 1\<close> is positive.
\<close>

definition over_load :: "('k, 'v) RobinHoodMap \<Rightarrow> bool" where
  "over_load m =
     (let n = size_m m + 1; l = int (length (entries m))
      in if l = 0 then 0 < n else 3 * l < 4 * n)"

text \<open>
  The probing loop of \<^verbatim>\<open>Put\<close> (lines 48 to 75). \<open>k\<close>, \<open>v\<close> and \<open>dist\<close> are the candidate
  being carried, which the swap exchanges with the resident of the slot.
\<close>

partial_function (option) put_loop ::
  "('k, 'v) RobinHoodMap \<Rightarrow> 'k \<Rightarrow> 'v \<Rightarrow> 8 word \<Rightarrow> 64 word \<Rightarrow> ('k, 'v) RobinHoodMap outcome"
where
  "put_loop m k v dist index =
     (if unat index < length (entries m) then
        let e = entries m ! unat index in
        if \<not> occupied e then
          Some (Inr (m\<lparr>entries := (entries m)[unat index :=
                         \<lparr>key = k, val = v, distance = dist, occupied = True\<rparr>],
                       size_m := size_m m + 1\<rparr>))
        else if key e = k then
          Some (Inr (m\<lparr>entries := (entries m)[unat index := e\<lparr>val := v\<rparr>]\<rparr>))
        else if distance e < dist then
          put_loop (m\<lparr>entries := (entries m)[unat index :=
                         e\<lparr>key := k, val := v, distance := dist\<rparr>]\<rparr>)
                   (key e) (val e) (distance e + 1) ((index + 1) AND mask_m m)
        else put_loop m k v (dist + 1) ((index + 1) AND mask_m m)
      else Some (Inl IndexOutOfRange))"

text \<open>
  The loop of \<^verbatim>\<open>resize\<close> over the old slots (lines 138 to 142), with the \<^verbatim>\<open>Put\<close> it calls
  as the argument \<open>put\<close>.
\<close>

fun reinsert ::
  "(('k, 'v) RobinHoodMap \<Rightarrow> 'k \<Rightarrow> 'v \<Rightarrow> ('k, 'v) RobinHoodMap outcome) \<Rightarrow>
   ('k, 'v) entry list \<Rightarrow> ('k, 'v) RobinHoodMap \<Rightarrow> ('k, 'v) RobinHoodMap outcome"
where
  "reinsert put [] m = Some (Inr m)"
| "reinsert put (e # es) m =
     (if occupied e then
        Option.bind (put m (key e) (val e))
          (\<lambda>r. case r of Inl err \<Rightarrow> Some (Inl err) | Inr m' \<Rightarrow> reinsert put es m')
      else reinsert put es m)"

definition resize_with ::
  "(('k, 'v) RobinHoodMap \<Rightarrow> 'k \<Rightarrow> 'v \<Rightarrow> ('k, 'v) RobinHoodMap outcome) \<Rightarrow>
   'k \<Rightarrow> 'v \<Rightarrow> ('k, 'v) RobinHoodMap \<Rightarrow> ('k, 'v) RobinHoodMap outcome"
where
  "resize_with put zk zv m =
     (let oldEntries = entries m; newSize = length (entries m) * 2 in
      if max_slots < newSize then Some (Inl MakeSliceLenOutOfRange)
      else reinsert put oldEntries
             (m\<lparr>entries := replicate newSize (zero_entry zk zv),
                mask_m := word_of_int (int newSize - 1),
                size_m := 0\<rparr>))"

lemma reinsert_mono [partial_function_mono]:
  assumes "\<And>m k v. mono_option (\<lambda>f. put f m k v)"
  shows "mono_option (\<lambda>f. reinsert (put f) es m)"
proof (induction es arbitrary: m)
  case Nil
  show ?case by (simp add: option.const_mono)
next
  case (Cons e es)
  show ?case
  proof (cases "occupied e")
    case True
    have "mono_option (\<lambda>f. Option.bind (put f m (key e) (val e))
            (\<lambda>r. case r of Inl err \<Rightarrow> Some (Inl err) | Inr m' \<Rightarrow> reinsert (put f) es m'))"
    proof (rule bind_mono [OF assms])
      fix r :: "error + ('a, 'b) RobinHoodMap"
      show "mono_option (\<lambda>f. case r of Inl err \<Rightarrow> Some (Inl err)
                                 | Inr m' \<Rightarrow> reinsert (put f) es m')"
        by (cases r) (simp_all add: option.const_mono Cons.IH)
    qed
    with True show ?thesis by simp
  next
    case False
    with Cons.IH show ?thesis by simp
  qed
qed

lemma resize_with_mono [partial_function_mono]:
  assumes "\<And>m k v. mono_option (\<lambda>f. put f m k v)"
  shows "mono_option (\<lambda>f. resize_with (put f) zk zv m)"
  unfolding resize_with_def Let_def
  by (intro if_mono option.const_mono reinsert_mono assms)

partial_function (option) Put ::
  "('k \<Rightarrow> 64 word) \<Rightarrow> 'k \<Rightarrow> 'v \<Rightarrow> ('k, 'v) RobinHoodMap \<Rightarrow> 'k \<Rightarrow> 'v \<Rightarrow>
   ('k, 'v) RobinHoodMap outcome"
where
  "Put h zk zv m k v =
     Option.bind
       (if over_load m then resize_with (Put h zk zv) zk zv m else Some (Inr m))
       (\<lambda>r. case r of
               Inl err \<Rightarrow> Some (Inl err)
             | Inr m1 \<Rightarrow> put_loop m1 k v 0 (h k AND mask_m m1))"

definition resize ::
  "('k \<Rightarrow> 64 word) \<Rightarrow> 'k \<Rightarrow> 'v \<Rightarrow> ('k, 'v) RobinHoodMap \<Rightarrow> ('k, 'v) RobinHoodMap outcome"
where
  "resize h zk zv m = resize_with (Put h zk zv) zk zv m"

subsection \<open>Get, Remove, Size and Clear\<close>

text \<open>The loop of \<^verbatim>\<open>Get\<close> (lines 83 to 94); \<open>zv\<close> is the zero value it returns for a miss.\<close>

partial_function (option) get_loop ::
  "'v \<Rightarrow> ('k, 'v) RobinHoodMap \<Rightarrow> 'k \<Rightarrow> 8 word \<Rightarrow> 64 word \<Rightarrow> ('v \<times> bool) outcome"
where
  "get_loop zv m k dist index =
     (if unat index < length (entries m) then
        let e = entries m ! unat index in
        if \<not> occupied e \<or> distance e < dist then Some (Inr (zv, False))
        else if key e = k then Some (Inr (val e, True))
        else get_loop zv m k (dist + 1) ((index + 1) AND mask_m m)
      else Some (Inl IndexOutOfRange))"

definition Get ::
  "('k \<Rightarrow> 64 word) \<Rightarrow> 'v \<Rightarrow> ('k, 'v) RobinHoodMap \<Rightarrow> 'k \<Rightarrow> ('v \<times> bool) outcome"
where
  "Get h zv m k = get_loop zv m k 0 (h k AND mask_m m)"

text \<open>
  The backward shift of \<^verbatim>\<open>Remove\<close> (lines 113 to 124). \<open>index\<close> is the slot that
  \<^verbatim>\<open>entry\<close> points to: the loop has read it before, so it lies inside the array.
\<close>

partial_function (option) shift_loop ::
  "('k, 'v) RobinHoodMap \<Rightarrow> 64 word \<Rightarrow> 64 word \<Rightarrow> (bool \<times> ('k, 'v) RobinHoodMap) outcome"
where
  "shift_loop m index nextIndex =
     (if unat nextIndex < length (entries m) then
        let nextEntry = entries m ! unat nextIndex in
        if \<not> occupied nextEntry \<or> distance nextEntry = 0 then
          Some (Inr (True, m\<lparr>entries := (entries m)[unat index :=
                                 (entries m ! unat index)\<lparr>occupied := False\<rparr>]\<rparr>))
        else
          shift_loop (m\<lparr>entries := (entries m)[unat index :=
                           nextEntry\<lparr>distance := distance nextEntry - 1\<rparr>]\<rparr>)
                     nextIndex ((nextIndex + 1) AND mask_m m)
      else Some (Inl IndexOutOfRange))"

text \<open>The search loop of \<^verbatim>\<open>Remove\<close> (lines 102 to 128).\<close>

partial_function (option) remove_loop ::
  "('k, 'v) RobinHoodMap \<Rightarrow> 'k \<Rightarrow> 8 word \<Rightarrow> 64 word \<Rightarrow> (bool \<times> ('k, 'v) RobinHoodMap) outcome"
where
  "remove_loop m k dist index =
     (if unat index < length (entries m) then
        let e = entries m ! unat index in
        if \<not> occupied e \<or> distance e < dist then Some (Inr (False, m))
        else if key e = k then
          shift_loop (m\<lparr>size_m := size_m m - 1\<rparr>) index ((index + 1) AND mask_m m)
        else remove_loop m k (dist + 1) ((index + 1) AND mask_m m)
      else Some (Inl IndexOutOfRange))"

definition Remove ::
  "('k \<Rightarrow> 64 word) \<Rightarrow> ('k, 'v) RobinHoodMap \<Rightarrow> 'k \<Rightarrow> (bool \<times> ('k, 'v) RobinHoodMap) outcome"
where
  "Remove h m k = remove_loop m k 0 (h k AND mask_m m)"

definition Size :: "('k, 'v) RobinHoodMap \<Rightarrow> int" where
  "Size m = size_m m"

definition Clear :: "'k \<Rightarrow> 'v \<Rightarrow> ('k, 'v) RobinHoodMap \<Rightarrow> ('k, 'v) RobinHoodMap" where
  "Clear zk zv m = m\<lparr>entries := replicate 8 (zero_entry zk zv), mask_m := 7, size_m := 0\<rparr>"

subsection \<open>Calls and reachable states\<close>

text \<open>
  The methods of the table as calls on its state. \<^verbatim>\<open>Get\<close> and \<^verbatim>\<open>Size\<close> assign to no
  field of the receiver, so the state they leave is the one they found.
\<close>

datatype ('k, 'v) call = CallPut 'k 'v | CallGet 'k | CallRemove 'k | CallSize | CallClear

datatype 'v reply = RetUnit | RetGet 'v bool | RetRemove bool | RetSize int

definition exec ::
  "('k \<Rightarrow> 64 word) \<Rightarrow> 'k \<Rightarrow> 'v \<Rightarrow> ('k, 'v) call \<Rightarrow> ('k, 'v) RobinHoodMap \<Rightarrow>
   ('v reply \<times> ('k, 'v) RobinHoodMap) outcome"
where
  "exec h zk zv c m =
     (case c of
        CallPut k v \<Rightarrow> map_option (map_sum id (\<lambda>m'. (RetUnit, m'))) (Put h zk zv m k v)
      | CallGet k \<Rightarrow> map_option (map_sum id (\<lambda>(v, b). (RetGet v b, m))) (Get h zv m k)
      | CallRemove k \<Rightarrow> map_option (map_sum id (\<lambda>(b, m'). (RetRemove b, m'))) (Remove h m k)
      | CallSize \<Rightarrow> Some (Inr (RetSize (Size m), m))
      | CallClear \<Rightarrow> Some (Inr (RetUnit, Clear zk zv m)))"

text \<open>
  The states of a table: the fresh one, and every state in which a call on a state of the
  table returns.
\<close>

inductive reachable ::
  "('k \<Rightarrow> 64 word) \<Rightarrow> 'k \<Rightarrow> 'v \<Rightarrow> ('k, 'v) RobinHoodMap \<Rightarrow> bool"
  for h :: "'k \<Rightarrow> 64 word" and zk :: 'k and zv :: 'v
where
  reachable_new: "reachable h zk zv (NewRobinHoodMap zk zv)"
| reachable_exec:
    "reachable h zk zv m \<Longrightarrow> exec h zk zv c m = Some (Inr (r, m')) \<Longrightarrow> reachable h zk zv m'"

text \<open>A sequence of calls, each on the state the one before left.\<close>

fun exec_all ::
  "('k \<Rightarrow> 64 word) \<Rightarrow> 'k \<Rightarrow> 'v \<Rightarrow> ('k, 'v) call list \<Rightarrow> ('k, 'v) RobinHoodMap \<Rightarrow>
   ('k, 'v) RobinHoodMap outcome"
where
  "exec_all h zk zv [] m = Some (Inr m)"
| "exec_all h zk zv (c # cs) m =
     Option.bind (exec h zk zv c m)
       (\<lambda>r. case r of Inl err \<Rightarrow> Some (Inl err) | Inr (x, m') \<Rightarrow> exec_all h zk zv cs m')"

text \<open>A sequence of \<^verbatim>\<open>Put\<close> calls, each on the state the one before left.\<close>

fun put_all ::
  "('k \<Rightarrow> 64 word) \<Rightarrow> 'k \<Rightarrow> 'v \<Rightarrow> ('k, 'v) RobinHoodMap \<Rightarrow> ('k \<times> 'v) list \<Rightarrow>
   ('k, 'v) RobinHoodMap outcome"
where
  "put_all h zk zv m [] = Some (Inr m)"
| "put_all h zk zv m ((k, v) # kvs) =
     Option.bind (Put h zk zv m k v)
       (\<lambda>r. case r of Inl err \<Rightarrow> Some (Inl err) | Inr m' \<Rightarrow> put_all h zk zv m' kvs)"

section \<open>Invariants\<close>

text \<open>
  The shape of the slot array: a power of two between 8 and \<open>max_slots\<close> slots, and
  \<open>mask_m\<close> one less than their number.
\<close>

definition shape_ok :: "('k, 'v) RobinHoodMap \<Rightarrow> bool" where
  "shape_ok m = (\<exists>n \<in> {3..47}. length (entries m) = 2 ^ n \<and> mask_m m = mask n)"

definition occ_count :: "('k, 'v) RobinHoodMap \<Rightarrow> nat" where
  "occ_count m = length (filter occupied (entries m))"

text \<open>The keys stored in the table: those of its occupied slots.\<close>

definition keys_of :: "('k, 'v) RobinHoodMap \<Rightarrow> 'k set" where
  "keys_of m = key ` set (filter occupied (entries m))"

text \<open>
  What holds of every state whatever the hash function: the shape, \<open>size_m\<close> counting the
  occupied slots, and the load factor not above 0.75.
\<close>

definition simple_inv :: "('k, 'v) RobinHoodMap \<Rightarrow> bool" where
  "simple_inv m =
     (shape_ok m \<and> size_m m = int (occ_count m) \<and>
      4 * size_m m \<le> 3 * int (length (entries m)))"

text \<open>
  What the probing loop of \<^verbatim>\<open>Put\<close> leaves when it starts at slot \<open>i\<close> with a free slot
  \<open>g\<close> steps ahead: the array keeps its length, \<open>size_m\<close> moves with the number of
  occupied slots, the candidate is stored, and no slot outside the \<open>g + 1\<close> probed ones
  changes.
\<close>

definition put_post ::
  "('k, 'v) RobinHoodMap \<Rightarrow> 'k \<Rightarrow> 'v \<Rightarrow> nat \<Rightarrow> nat \<Rightarrow> ('k, 'v) RobinHoodMap \<Rightarrow> bool"
where
  "put_post m k v i g m' =
     (length (entries m') = length (entries m) \<and> mask_m m' = mask_m m \<and>
      size_m m' - int (occ_count m') = size_m m - int (occ_count m) \<and>
      occ_count m \<le> occ_count m' \<and> occ_count m' \<le> occ_count m + 1 \<and>
      (\<exists>p<length (entries m).
         occupied (entries m' ! p) \<and> key (entries m' ! p) = k \<and> val (entries m' ! p) = v) \<and>
      (\<forall>j<length (entries m).
         (\<forall>t\<le>g. j \<noteq> (i + t) mod length (entries m)) \<longrightarrow> entries m' ! j = entries m ! j))"

subsection \<open>The Robin Hood invariant\<close>

text \<open>The home bucket of a key: \<^verbatim>\<open>hash & m.mask\<close>.\<close>

definition home :: "('k \<Rightarrow> 64 word) \<Rightarrow> ('k, 'v) RobinHoodMap \<Rightarrow> 'k \<Rightarrow> nat" where
  "home h m k = unat (h k AND mask_m m)"

text \<open>
  The first \<open>D\<close> slots of the probe sequence that starts at bucket \<open>b\<close> are occupied,
  and the \<open>j\<close>-th of them stores a distance that, as a \<^verbatim>\<open>uint8\<close>, is not below \<open>j\<close>: a
  probe for a key with home \<open>b\<close> neither stops nor swaps before it has made \<open>D\<close> steps.
\<close>

definition probe_path :: "('k, 'v) RobinHoodMap \<Rightarrow> nat \<Rightarrow> nat \<Rightarrow> bool" where
  "probe_path m b D =
     (\<forall>j<D. occupied (entries m ! ((b + j) mod length (entries m))) \<and>
            (of_nat j :: 8 word) \<le> distance (entries m ! ((b + j) mod length (entries m))))"

text \<open>
  Slot \<open>i\<close> lies \<open>D\<close> steps after the home bucket of its key, stores \<open>D\<close> cut to a
  \<^verbatim>\<open>uint8\<close> as its distance, and the probe sequence of its key reaches it.
\<close>

definition placed :: "('k \<Rightarrow> 64 word) \<Rightarrow> ('k, 'v) RobinHoodMap \<Rightarrow> nat \<Rightarrow> bool" where
  "placed h m i =
     (\<exists>D. i = (home h m (key (entries m ! i)) + D) mod length (entries m) \<and>
          distance (entries m ! i) = of_nat D \<and>
          probe_path m (home h m (key (entries m ! i))) D)"

text \<open>Every occupied slot is placed, and no two occupied slots hold the same key.\<close>

definition robin_inv :: "('k \<Rightarrow> 64 word) \<Rightarrow> ('k, 'v) RobinHoodMap \<Rightarrow> bool" where
  "robin_inv h m =
     ((\<forall>i<length (entries m). occupied (entries m ! i) \<longrightarrow> placed h m i) \<and>
      (\<forall>i<length (entries m). \<forall>j<length (entries m).
         occupied (entries m ! i) \<and> occupied (entries m ! j) \<and>
         key (entries m ! i) = key (entries m ! j) \<longrightarrow> i = j))"

text \<open>Some occupied slot holds the key \<open>k\<close> with the value \<open>v\<close>.\<close>

definition stored :: "('k, 'v) RobinHoodMap \<Rightarrow> 'k \<Rightarrow> 'v \<Rightarrow> bool" where
  "stored m k v =
     (\<exists>i<length (entries m).
        occupied (entries m ! i) \<and> key (entries m ! i) = k \<and> val (entries m ! i) = v)"


section \<open>Example tables\<close>

text \<open>
  Two hash functions on natural-number keys for the examples: \<open>hash_low\<close> spreads the keys
  over the slots, \<open>hash_same\<close> sends every key to the same slot, as the hash of the
  source does for keys that \<^verbatim>\<open>fmt.Sprintf("%v", key)\<close> prints alike.
\<close>

definition hash_low :: "nat \<Rightarrow> 64 word" where
  "hash_low k = of_nat k"

definition hash_same :: "nat \<Rightarrow> 64 word" where
  "hash_same k = 0"

text \<open>The table after \<^verbatim>\<open>Put(1, 10)\<close>, \<^verbatim>\<open>Put(9, 90)\<close> and \<^verbatim>\<open>Remove(1)\<close> under \<open>hash_low\<close>.\<close>

definition ex1 :: "(nat, nat) RobinHoodMap" where
  "ex1 = \<lparr>entries =
     [\<lparr>key = 0, val = 0, distance = 0, occupied = False\<rparr>,
      \<lparr>key = 9, val = 90, distance = 0, occupied = True\<rparr>,
      \<lparr>key = 9, val = 90, distance = 1, occupied = False\<rparr>,
      \<lparr>key = 0, val = 0, distance = 0, occupied = False\<rparr>,
      \<lparr>key = 0, val = 0, distance = 0, occupied = False\<rparr>,
      \<lparr>key = 0, val = 0, distance = 0, occupied = False\<rparr>,
      \<lparr>key = 0, val = 0, distance = 0, occupied = False\<rparr>,
      \<lparr>key = 0, val = 0, distance = 0, occupied = False\<rparr>], size_m = 1, mask_m = 7\<rparr>"

text \<open>An occupied slot, for writing tables down.\<close>

definition slot :: "'k \<Rightarrow> 'v \<Rightarrow> 8 word \<Rightarrow> ('k, 'v) entry" where
  "slot k v d = \<lparr>key = k, val = v, distance = d, occupied = True\<rparr>"

text \<open>
  The table after \<^verbatim>\<open>Put\<close> of the keys 1, 9, 3, 4, 5 and 6 under \<open>hash_low\<close>: six of
  eight slots are occupied, so the next \<^verbatim>\<open>Put\<close> resizes. \<open>ex3\<close> is the table that
  \<^verbatim>\<open>Put(1, 11)\<close> makes of it.
\<close>

definition ex2 :: "(nat, nat) RobinHoodMap" where
  "ex2 = \<lparr>entries =
     [zero_entry 0 0, slot 1 10 0, slot 9 90 1, slot 3 30 0,
      slot 4 40 0, slot 5 50 0, slot 6 60 0, zero_entry 0 0], size_m = 6, mask_m = 7\<rparr>"


subsection \<open>Keys that all collide\<close>

text \<open>A table given by its number of slots, the content of each slot, and its size.\<close>

definition table_of ::
  "nat \<Rightarrow> (nat \<Rightarrow> ('k, 'v) entry) \<Rightarrow> int \<Rightarrow> ('k, 'v) RobinHoodMap"
where
  "table_of len f s = \<lparr>entries = map f [0..<len], size_m = s, mask_m = of_nat (len - 1)\<rparr>"

text \<open>
  Under \<open>hash_same\<close> every key has the home bucket 0. After \<^verbatim>\<open>Put(i, i)\<close> for the keys
  \<open>0\<close> to \<open>n - 1\<close> in this order, key \<open>i\<close> sits in slot \<open>i\<close> with the distance \<open>i\<close> cut to a
  \<^verbatim>\<open>uint8\<close>.
\<close>

definition same_fill :: "nat \<Rightarrow> nat \<Rightarrow> (nat, nat) entry" where
  "same_fill n i = (if i < n then slot i i (of_nat i) else zero_entry 0 0)"

definition same_table :: "nat \<Rightarrow> nat \<Rightarrow> (nat, nat) RobinHoodMap" where
  "same_table len n = table_of len (same_fill n) (int n)"

text \<open>
  The binary logarithm of the number of slots after \<open>n\<close> such calls: the table starts with
  \<open>2 ^ 3\<close> slots and doubles when the load-factor test fires.
\<close>

fun cap_exp :: "nat \<Rightarrow> nat" where
  "cap_exp 0 = 3"
| "cap_exp (Suc n) =
     (if 3 * 2 ^ cap_exp n < 4 * (n + 1) then Suc (cap_exp n) else cap_exp n)"

text \<open>
  The table of 257 colliding keys while \<^verbatim>\<open>Remove(0)\<close> shifts backward: the slots below
  \<open>j\<close> hold the entry of their successor, one step closer to home.
\<close>

definition shift_fill :: "nat \<Rightarrow> nat \<Rightarrow> (nat, nat) entry" where
  "shift_fill j i = (if i < j then slot (i + 1) (i + 1) (of_nat i) else same_fill 257 i)"

text \<open>
  The table that \<^verbatim>\<open>Remove(0)\<close> leaves: the shift stops in front of slot 256, whose stored
  distance is 0, and frees slot 255.
\<close>

definition removed_table :: "(nat, nat) RobinHoodMap" where
  "removed_table =
     table_of 512 ((shift_fill 255)(255 := (shift_fill 255 255)\<lparr>occupied := False\<rparr>)) 256"

text \<open>The table that \<^verbatim>\<open>Put(256, 7)\<close> makes of it: slot 255 receives the pair.\<close>

definition doubled_key_table :: "(nat, nat) RobinHoodMap" where
  "doubled_key_table =
     table_of 512 ((shift_fill 255)(255 := slot 256 7 255)) 257"

section \<open>Index arithmetic\<close>

lemma unat_and_mask64: "unat ((w::64 word) AND mask n) = unat w mod 2 ^ n"
proof -
  have "unat (w AND mask n) = unat (take_bit n w)"
    by (simp only: take_bit_eq_mask)
  also have "\<dots> = take_bit n (unat w)"
    by (rule unsigned_take_bit_eq)
  also have "\<dots> = unat w mod 2 ^ n"
    by (rule take_bit_eq_mod)
  finally show ?thesis .
qed

lemma unat_succ_and_mask64:
  assumes "n \<le> 64"
  shows "unat (((w::64 word) + 1) AND mask n) = (unat w + 1) mod 2 ^ n"
proof -
  have d: "(2::nat) ^ n dvd 2 ^ 64" by (rule le_imp_power_dvd) (rule assms)
  have "unat (w + 1) = (unat w + 1) mod 2 ^ 64"
    by (simp add: unat_word_ariths)
  then have "unat (w + 1) mod 2 ^ n = (unat w + 1) mod 2 ^ 64 mod 2 ^ n"
    by (simp only:)
  also have "\<dots> = (unat w + 1) mod 2 ^ n"
    by (rule mod_mod_cancel) (rule d)
  finally show ?thesis by (simp only: unat_and_mask64)
qed

lemma mask_of_len: "word_of_int (int ((2::nat) ^ n * 2) - 1) = (mask (Suc n) :: 64 word)"
  by (simp add: mask_eq_decr_exp)

lemma mask7: "(7::64 word) = mask 3"
  by (simp add: mask_eq_decr_exp)

section \<open>The shape of the table and its free slots\<close>

lemma shape_okD:
  assumes "shape_ok m"
  obtains n where "3 \<le> n" "n \<le> 47" "length (entries m) = 2 ^ n" "mask_m m = mask n"
  using assms unfolding shape_ok_def by auto

lemma shape_ok_len_pos: "shape_ok m \<Longrightarrow> 0 < length (entries m)"
  by (erule shape_okD) simp

lemma shape_ok_len_ge8: "shape_ok m \<Longrightarrow> 8 \<le> length (entries m)"
proof (erule shape_okD)
  fix n :: nat assume "3 \<le> n" and l: "length (entries m) = 2 ^ n"
  then have "(2::nat) ^ 3 \<le> 2 ^ n" by (intro power_increasing) simp_all
  with l show ?thesis by simp
qed

lemma home_index:
  assumes "shape_ok m"
  shows "unat (w AND mask_m m) = unat w mod length (entries m)"
  using assms by (auto elim!: shape_okD simp: unat_and_mask64)

lemma next_index:
  assumes "shape_ok m"
  shows "unat ((w + 1) AND mask_m m) = (unat w + 1) mod length (entries m)"
  using assms by (auto elim!: shape_okD simp: unat_succ_and_mask64)

lemma home_index_less: "shape_ok m \<Longrightarrow> unat (w AND mask_m m) < length (entries m)"
  using shape_ok_len_pos [of m] by (simp add: home_index)

lemma next_index_less: "shape_ok m \<Longrightarrow> unat ((w + 1) AND mask_m m) < length (entries m)"
  using shape_ok_len_pos [of m] by (simp add: next_index)

lemma shape_ok_entries_update [simp]:
  "length es = length (entries m) \<Longrightarrow> shape_ok (m\<lparr>entries := es\<rparr>) = shape_ok m"
  by (simp add: shape_ok_def)

lemma shape_ok_size_update [simp]: "shape_ok (m\<lparr>size_m := s\<rparr>) = shape_ok m"
  by (simp add: shape_ok_def)

lemma filter_update_length:
  "i < length xs \<Longrightarrow>
   length (filter P (xs[i := y])) + (if P (xs ! i) then 1 else 0) =
   length (filter P xs) + (if P y then 1 else 0)"
proof (induction xs arbitrary: i)
  case Nil
  then show ?case by simp
next
  case (Cons x xs)
  show ?case
  proof (cases i)
    case 0
    then show ?thesis by simp
  next
    case (Suc j)
    with Cons.prems have "j < length xs" by simp
    from Cons.IH [OF this] Suc show ?thesis by simp
  qed
qed

lemma occ_count_update:
  "i < length (entries m) \<Longrightarrow>
   occ_count (m\<lparr>entries := (entries m)[i := y]\<rparr>) + (if occupied (entries m ! i) then 1 else 0) =
   occ_count m + (if occupied y then 1 else 0)"
  by (simp add: occ_count_def filter_update_length)

lemma occ_count_size_update [simp]: "occ_count (m\<lparr>size_m := s\<rparr>) = occ_count m"
  by (simp add: occ_count_def)

lemma free_slot_exists:
  assumes "occ_count m < length (entries m)"
  shows "\<exists>j<length (entries m). \<not> occupied (entries m ! j)"
proof (rule ccontr)
  assume "\<not> ?thesis"
  then have "\<forall>e \<in> set (entries m). occupied e"
    by (auto simp: in_set_conv_nth)
  then have "filter occupied (entries m) = entries m" by simp
  with assms show False by (simp add: occ_count_def)
qed

lemma cyclic_offset:
  assumes "i < L" "j < L"
  shows "\<exists>g<L. (i + g) mod L = (j::nat)"
proof (intro exI conjI)
  show "(j + L - i) mod L < L" using assms by simp
  have "(i + (j + L - i) mod L) mod L = (i + (j + L - i)) mod L"
    by (simp add: mod_add_right_eq)
  also have "\<dots> = (j + L) mod L" using assms by simp
  also have "\<dots> = j" using assms by simp
  finally show "(i + (j + L - i) mod L) mod L = j" .
qed

lemma free_slot_ahead:
  assumes "occ_count m < length (entries m)" "i < length (entries m)"
  shows "\<exists>g<length (entries m). \<not> occupied (entries m ! ((i + g) mod length (entries m)))"
proof -
  from free_slot_exists [OF assms(1)] obtain j
    where j: "j < length (entries m)" "\<not> occupied (entries m ! j)" by blast
  from cyclic_offset [OF assms(2) j(1)] obtain g
    where "g < length (entries m)" "(i + g) mod length (entries m) = j" by blast
  with j show ?thesis by auto
qed

section \<open>Put returns in every state with a free slot\<close>

subsection \<open>One step of each loop\<close>

lemma put_loop_free:
  assumes "unat index < length (entries m)" "\<not> occupied (entries m ! unat index)"
  shows "put_loop m k v d index =
    Some (Inr (m\<lparr>entries := (entries m)[unat index :=
                  \<lparr>key = k, val = v, distance = d, occupied = True\<rparr>],
                size_m := size_m m + 1\<rparr>))"
  using assms by (subst put_loop.simps) simp

lemma put_loop_hit:
  assumes "unat index < length (entries m)" "occupied (entries m ! unat index)"
    "key (entries m ! unat index) = k"
  shows "put_loop m k v d index =
    Some (Inr (m\<lparr>entries := (entries m)[unat index := (entries m ! unat index)\<lparr>val := v\<rparr>]\<rparr>))"
  using assms by (subst put_loop.simps) simp

lemma put_loop_swap:
  assumes "unat index < length (entries m)" "occupied (entries m ! unat index)"
    "key (entries m ! unat index) \<noteq> k" "distance (entries m ! unat index) < d"
  shows "put_loop m k v d index =
    put_loop (m\<lparr>entries := (entries m)[unat index :=
                 (entries m ! unat index)\<lparr>key := k, val := v, distance := d\<rparr>]\<rparr>)
      (key (entries m ! unat index)) (val (entries m ! unat index))
      (distance (entries m ! unat index) + 1) ((index + 1) AND mask_m m)"
  using assms by (subst put_loop.simps) (simp add: Let_def)

lemma put_loop_pass:
  assumes "unat index < length (entries m)" "occupied (entries m ! unat index)"
    "key (entries m ! unat index) \<noteq> k" "\<not> distance (entries m ! unat index) < d"
  shows "put_loop m k v d index = put_loop m k v (d + 1) ((index + 1) AND mask_m m)"
  using assms by (subst put_loop.simps) (simp add: Let_def)

lemma cyc_ne:
  assumes "i < L" "0 < s" "s < L"
  shows "(i + s) mod L \<noteq> (i::nat)"
proof (cases "i + s < L")
  case True
  with assms show ?thesis by simp
next
  case False
  then have "(i + s) mod L = i + s - L"
    using assms by (simp add: le_mod_geq)
  with assms False show ?thesis by simp
qed

lemma cyc_step: "((i + 1) mod L + g) mod L = (i + Suc g) mod (L::nat)"
  by (simp add: mod_add_left_eq)

lemma put_post_free:
  assumes "i < length (entries m)" "\<not> occupied (entries m ! i)"
  shows "put_post m k v i g
    (m\<lparr>entries := (entries m)[i := \<lparr>key = k, val = v, distance = d, occupied = True\<rparr>],
       size_m := size_m m + 1\<rparr>)"
proof -
  have "occ_count (m\<lparr>entries := (entries m)[i := \<lparr>key = k, val = v, distance = d, occupied = True\<rparr>]\<rparr>)
      = occ_count m + 1"
    using occ_count_update [OF assms(1), of "\<lparr>key = k, val = v, distance = d, occupied = True\<rparr>"] assms(2)
    by simp
  then have c: "occ_count (m\<lparr>entries := (entries m)[i := \<lparr>key = k, val = v, distance = d, occupied = True\<rparr>],
       size_m := size_m m + 1\<rparr>) = occ_count m + 1"
    by (simp add: occ_count_def)
  have f: "\<forall>j<length (entries m). (\<forall>t\<le>g. j \<noteq> (i + t) mod length (entries m)) \<longrightarrow>
      ((entries m)[i := \<lparr>key = k, val = v, distance = d, occupied = True\<rparr>]) ! j = entries m ! j"
  proof (intro allI impI)
    fix j assume "j < length (entries m)" "\<forall>t\<le>g. j \<noteq> (i + t) mod length (entries m)"
    then have "j \<noteq> (i + 0) mod length (entries m)" by blast
    with assms(1) have "j \<noteq> i" by simp
    then show "((entries m)[i := \<lparr>key = k, val = v, distance = d, occupied = True\<rparr>]) ! j = entries m ! j"
      by simp
  qed
  show ?thesis
    unfolding put_post_def using assms(1) c f
    by (auto intro!: exI [of _ i])
qed

lemma put_post_hit:
  assumes "i < length (entries m)" "occupied (entries m ! i)" "key (entries m ! i) = k"
  shows "put_post m k v i g (m\<lparr>entries := (entries m)[i := (entries m ! i)\<lparr>val := v\<rparr>]\<rparr>)"
proof -
  have c: "occ_count (m\<lparr>entries := (entries m)[i := (entries m ! i)\<lparr>val := v\<rparr>]\<rparr>) = occ_count m"
    using occ_count_update [OF assms(1), of "(entries m ! i)\<lparr>val := v\<rparr>"] assms(2)
    by simp
  have f: "\<forall>j<length (entries m). (\<forall>t\<le>g. j \<noteq> (i + t) mod length (entries m)) \<longrightarrow>
      ((entries m)[i := (entries m ! i)\<lparr>val := v\<rparr>]) ! j = entries m ! j"
  proof (intro allI impI)
    fix j assume "j < length (entries m)" "\<forall>t\<le>g. j \<noteq> (i + t) mod length (entries m)"
    then have "j \<noteq> (i + 0) mod length (entries m)" by blast
    with assms(1) have "j \<noteq> i" by simp
    then show "((entries m)[i := (entries m ! i)\<lparr>val := v\<rparr>]) ! j = entries m ! j"
      by simp
  qed
  show ?thesis
    unfolding put_post_def using assms c f
    by (auto intro!: exI [of _ i])
qed

text \<open>The window of a later start lies inside the window of an earlier one.\<close>

lemma put_post_step:
  assumes L: "i < length (entries m)" "Suc g < length (entries m)"
    and m2: "length (entries m2) = length (entries m)" "mask_m m2 = mask_m m"
      "size_m m2 = size_m m" "occ_count m2 = occ_count m"
      "\<forall>j<length (entries m). j \<noteq> i \<longrightarrow> entries m2 ! j = entries m ! j"
    and post: "put_post m2 k' v' ((i + 1) mod length (entries m)) g m'"
    and stored: "(k', v') = (k, v) \<or>
      (occupied (entries m2 ! i) \<and> key (entries m2 ! i) = k \<and> val (entries m2 ! i) = v)"
  shows "put_post m k v i (Suc g) m'"
proof -
  let ?L = "length (entries m)"
  have notin: "i \<noteq> ((i + 1) mod ?L + t) mod ?L" if "t \<le> g" for t
  proof -
    have "((i + 1) mod ?L + t) mod ?L = (i + Suc t) mod ?L" by (rule cyc_step)
    moreover have "(i + Suc t) mod ?L \<noteq> i"
      using L that by (intro cyc_ne) simp_all
    ultimately show ?thesis by simp
  qed
  from post have p:
    "length (entries m') = length (entries m2)" "mask_m m' = mask_m m2"
    "size_m m' - int (occ_count m') = size_m m2 - int (occ_count m2)"
    "occ_count m2 \<le> occ_count m'" "occ_count m' \<le> occ_count m2 + 1"
    "\<exists>p<length (entries m2).
         occupied (entries m' ! p) \<and> key (entries m' ! p) = k' \<and> val (entries m' ! p) = v'"
    "\<forall>j<length (entries m2).
         (\<forall>t\<le>g. j \<noteq> ((i + 1) mod ?L + t) mod length (entries m2)) \<longrightarrow>
           entries m' ! j = entries m2 ! j"
    unfolding put_post_def by blast+
  have keep_i: "entries m' ! i = entries m2 ! i"
    using p(7) L(1) m2(1) notin by simp
  have st: "\<exists>p<?L. occupied (entries m' ! p) \<and> key (entries m' ! p) = k \<and> val (entries m' ! p) = v"
    using stored
  proof
    assume "(k', v') = (k, v)"
    with p(6) m2(1) show ?thesis by simp
  next
    assume "occupied (entries m2 ! i) \<and> key (entries m2 ! i) = k \<and> val (entries m2 ! i) = v"
    with keep_i L(1) show ?thesis by (intro exI [of _ i]) simp
  qed
  have fr: "\<forall>j<?L. (\<forall>t\<le>Suc g. j \<noteq> (i + t) mod ?L) \<longrightarrow> entries m' ! j = entries m ! j"
  proof (intro allI impI)
    fix j assume j: "j < ?L" and out: "\<forall>t\<le>Suc g. j \<noteq> (i + t) mod ?L"
    from out have "j \<noteq> (i + 0) mod ?L" by blast
    with L(1) have ji: "j \<noteq> i" by simp
    have "\<forall>t\<le>g. j \<noteq> ((i + 1) mod ?L + t) mod ?L"
    proof (intro allI impI)
      fix t assume "t \<le> g"
      then have "Suc t \<le> Suc g" by simp
      with out have "j \<noteq> (i + Suc t) mod ?L" by blast
      then show "j \<noteq> ((i + 1) mod ?L + t) mod ?L" unfolding cyc_step .
    qed
    with p(7) j m2(1) have "entries m' ! j = entries m2 ! j" by simp
    also from m2(5) j ji have "\<dots> = entries m ! j" by simp
    finally show "entries m' ! j = entries m ! j" .
  qed
  show ?thesis
    unfolding put_post_def using p(1-5) m2(1-4) st fr by simp
qed

lemma put_loop_returns:
  assumes "shape_ok m" "unat index < length (entries m)" "g < length (entries m)"
    "\<not> occupied (entries m ! ((unat index + g) mod length (entries m)))"
  shows "\<exists>m'. put_loop m k v d index = Some (Inr m') \<and> put_post m k v (unat index) g m'"
  using assms
proof (induction g arbitrary: m k v d index)
  case 0
  then have "\<not> occupied (entries m ! unat index)" by simp
  with 0 show ?case
    by (simp add: put_loop_free put_post_free)
next
  case (Suc g)
  let ?L = "length (entries m)"
  let ?i = "unat index"
  let ?e = "entries m ! ?i"
  let ?index' = "(index + 1) AND mask_m m"
  have i': "unat ?index' = (?i + 1) mod ?L"
    using Suc.prems(1) by (rule next_index)
  have i'_less: "unat ?index' < ?L"
    using Suc.prems(1) by (rule next_index_less)
  have g_less: "g < ?L" using Suc.prems(3) by simp
  have free_at: "(unat ?index' + g) mod ?L = (?i + Suc g) mod ?L"
    unfolding i' by (rule cyc_step)
  have free_ne: "(?i + Suc g) mod ?L \<noteq> ?i"
    using Suc.prems(2,3) by (intro cyc_ne) simp_all
  consider (free) "\<not> occupied ?e" | (hit) "occupied ?e" "key ?e = k"
    | (swap) "occupied ?e" "key ?e \<noteq> k" "distance ?e < d"
    | (pass) "occupied ?e" "key ?e \<noteq> k" "\<not> distance ?e < d"
    by blast
  then show ?case
  proof cases
    case free
    with Suc.prems show ?thesis by (simp add: put_loop_free put_post_free)
  next
    case hit
    with Suc.prems show ?thesis by (simp add: put_loop_hit put_post_hit)
  next
    case swap
    let ?m2 = "m\<lparr>entries := (entries m)[?i := ?e\<lparr>key := k, val := v, distance := d\<rparr>]\<rparr>"
    have len2: "length (entries ?m2) = ?L" by simp
    have shape2: "shape_ok ?m2" using Suc.prems(1) by simp
    have free2: "\<not> occupied (entries ?m2 ! ((unat ?index' + g) mod length (entries ?m2)))"
      using Suc.prems(4) free_ne free_at by simp
    have "\<exists>m'. put_loop ?m2 (key ?e) (val ?e) (distance ?e + 1) ?index' = Some (Inr m') \<and>
        put_post ?m2 (key ?e) (val ?e) (unat ?index') g m'"
      using shape2 i'_less g_less free2 by (intro Suc.IH) simp_all
    then obtain m' where r: "put_loop ?m2 (key ?e) (val ?e) (distance ?e + 1) ?index' = Some (Inr m')"
      and post: "put_post ?m2 (key ?e) (val ?e) ((?i + 1) mod ?L) g m'"
      by (auto simp: i')
    have occ2: "occ_count ?m2 = occ_count m"
      using occ_count_update [OF Suc.prems(2), of "?e\<lparr>key := k, val := v, distance := d\<rparr>"] swap(1)
      by simp
    have "put_post m k v ?i (Suc g) m'"
    proof (rule put_post_step [OF Suc.prems(2,3) _ _ _ _ _ post])
      show "occ_count ?m2 = occ_count m" by (rule occ2)
      show "(key ?e, val ?e) = (k, v) \<or>
        occupied (entries ?m2 ! ?i) \<and> key (entries ?m2 ! ?i) = k \<and> val (entries ?m2 ! ?i) = v"
        using Suc.prems(2) swap(1) by simp
    qed simp_all
    moreover have "put_loop m k v d index = Some (Inr m')"
      using put_loop_swap [OF Suc.prems(2) swap] r by simp
    ultimately show ?thesis by blast
  next
    case pass
    have free2: "\<not> occupied (entries m ! ((unat ?index' + g) mod ?L))"
      using Suc.prems(4) free_at by simp
    have "\<exists>m'. put_loop m k v (d + 1) ?index' = Some (Inr m') \<and>
        put_post m k v (unat ?index') g m'"
      using Suc.prems(1) i'_less g_less free2 by (intro Suc.IH)
    then obtain m' where r: "put_loop m k v (d + 1) ?index' = Some (Inr m')"
      and post: "put_post m k v ((?i + 1) mod ?L) g m'"
      by (auto simp: i')
    have "put_post m k v ?i (Suc g) m'"
      by (rule put_post_step [OF Suc.prems(2,3) _ _ _ _ _ post]) simp_all
    moreover have "put_loop m k v d index = Some (Inr m')"
      using put_loop_pass [OF Suc.prems(2) pass] r by simp
    ultimately show ?thesis by blast
  qed
qed

lemma Put_no_resize:
  "\<not> over_load m \<Longrightarrow> Put h zk zv m k v = put_loop m k v 0 (h k AND mask_m m)"
  by (subst Put.simps) simp

lemma Put_resize:
  "over_load m \<Longrightarrow> Put h zk zv m k v =
     Option.bind (resize h zk zv m)
       (\<lambda>r. case r of Inl err \<Rightarrow> Some (Inl err)
                    | Inr m1 \<Rightarrow> put_loop m1 k v 0 (h k AND mask_m m1))"
  by (subst Put.simps) (simp add: resize_def)

lemma over_load_iff:
  "0 < length (entries m) \<Longrightarrow>
   over_load m \<longleftrightarrow> 3 * int (length (entries m)) < 4 * (size_m m + 1)"
  by (simp add: over_load_def Let_def)

lemma put_probe_returns:
  assumes "shape_ok m" "occ_count m < length (entries m)"
  shows "\<exists>m' g. put_loop m k v 0 (h k AND mask_m m) = Some (Inr m') \<and>
      put_post m k v (unat (h k AND mask_m m)) g m'"
proof -
  have i: "unat (h k AND mask_m m) < length (entries m)"
    using assms(1) by (rule home_index_less)
  from free_slot_ahead [OF assms(2) i] obtain g where
    "g < length (entries m)"
    "\<not> occupied (entries m ! ((unat (h k AND mask_m m) + g) mod length (entries m)))"
    by blast
  from put_loop_returns [OF assms(1) i this] show ?thesis by blast
qed

lemma put_post_shape: "put_post m k v i g m' \<Longrightarrow> shape_ok m' = shape_ok m"
  by (simp add: put_post_def shape_ok_def)

lemma reinsert_returns:
  assumes "shape_ok m" "size_m m = int (occ_count m)"
    "2 * (occ_count m + length (filter occupied es)) \<le> length (entries m)"
  shows "\<exists>m'. reinsert (Put h zk zv) es m = Some (Inr m') \<and> shape_ok m' \<and>
      length (entries m') = length (entries m) \<and> mask_m m' = mask_m m \<and>
      size_m m' = int (occ_count m') \<and>
      occ_count m' \<le> occ_count m + length (filter occupied es)"
  using assms
proof (induction es arbitrary: m)
  case Nil
  then show ?case by simp
next
  case (Cons e es)
  show ?case
  proof (cases "occupied e")
    case False
    with Cons.prems have "2 * (occ_count m + length (filter occupied es)) \<le> length (entries m)"
      by simp
    from Cons.IH [OF Cons.prems(1,2) this] False show ?thesis by simp
  next
    case True
    let ?L = "length (entries m)"
    have pos: "0 < ?L" using Cons.prems(1) by (rule shape_ok_len_pos)
    have cnt: "2 * (occ_count m + 1 + length (filter occupied es)) \<le> ?L"
      using Cons.prems(3) True by simp
    then have "\<not> over_load m"
      using pos Cons.prems(2) by (simp add: over_load_iff)
    then have put: "Put h zk zv m (key e) (val e) = put_loop m (key e) (val e) 0 (h (key e) AND mask_m m)"
      by (rule Put_no_resize)
    have "occ_count m < ?L" using cnt pos by simp
    from put_probe_returns [OF Cons.prems(1) this, of "key e" "val e" h]
    obtain m1 g where r: "put_loop m (key e) (val e) 0 (h (key e) AND mask_m m) = Some (Inr m1)"
      and post: "put_post m (key e) (val e) (unat (h (key e) AND mask_m m)) g m1"
      by blast
    from post have p: "length (entries m1) = ?L" "mask_m m1 = mask_m m"
      "size_m m1 - int (occ_count m1) = size_m m - int (occ_count m)"
      "occ_count m1 \<le> occ_count m + 1"
      unfolding put_post_def by blast+
    have s1: "shape_ok m1" using post Cons.prems(1) by (simp add: put_post_shape)
    have z1: "size_m m1 = int (occ_count m1)" using p(3) Cons.prems(2) by simp
    have c1: "2 * (occ_count m1 + length (filter occupied es)) \<le> length (entries m1)"
      using cnt p(1,4) by simp
    from Cons.IH [OF s1 z1 c1] obtain m' where
      "reinsert (Put h zk zv) es m1 = Some (Inr m')" "shape_ok m'"
      "length (entries m') = length (entries m1)" "mask_m m' = mask_m m1"
      "size_m m' = int (occ_count m')"
      "occ_count m' \<le> occ_count m1 + length (filter occupied es)"
      by blast
    with True put r p show ?thesis by simp
  qed
qed

lemma occ_count_le: "occ_count m \<le> length (entries m)"
  by (simp add: occ_count_def)

lemma occ_count_fresh [simp]:
  "occ_count (m\<lparr>entries := replicate n (zero_entry zk zv)\<rparr>) = 0"
  by (simp add: occ_count_def zero_entry_def)

lemma occ_count_mask_update [simp]: "occ_count (m\<lparr>mask_m := w\<rparr>) = occ_count m"
  by (simp add: occ_count_def)

lemma shape_ok_doubled:
  assumes "shape_ok m" "length (entries m) * 2 \<le> max_slots"
  shows "shape_ok (m\<lparr>entries := replicate (length (entries m) * 2) z,
                     mask_m := word_of_int (int (length (entries m) * 2) - 1),
                     size_m := s\<rparr>)"
proof -
  from assms(1) obtain n where n: "3 \<le> n" "length (entries m) = 2 ^ n"
    by (rule shape_okD)
  have "(2::nat) ^ Suc n \<le> 2 ^ 47"
    using assms(2) n(2) by (simp add: max_slots_def)
  then have "Suc n \<le> 47"
    by (rule power_le_imp_le_exp [rotated]) simp
  moreover have "word_of_int (int ((2::nat) ^ n * 2) - 1) = (mask (Suc n) :: 64 word)"
    by (rule mask_of_len)
  ultimately show ?thesis
    using n unfolding shape_ok_def
    by (intro bexI [of _ "Suc n"]) simp_all
qed

lemma resize_returns:
  assumes "shape_ok m" "length (entries m) * 2 \<le> max_slots"
  shows "\<exists>m1. resize h zk zv m = Some (Inr m1) \<and> shape_ok m1 \<and>
      length (entries m1) = length (entries m) * 2 \<and>
      size_m m1 = int (occ_count m1) \<and> occ_count m1 \<le> occ_count m"
proof -
  let ?m0 = "m\<lparr>entries := replicate (length (entries m) * 2) (zero_entry zk zv),
                mask_m := word_of_int (int (length (entries m) * 2) - 1),
                size_m := 0\<rparr>"
  have s0: "shape_ok ?m0" using assms by (rule shape_ok_doubled)
  have o0: "occ_count ?m0 = 0" by (simp add: occ_count_def zero_entry_def)
  have z0: "size_m ?m0 = int (occ_count ?m0)" using o0 by simp
  have "length (filter occupied (entries m)) \<le> length (entries m)" by simp
  then have c0: "2 * (occ_count ?m0 + length (filter occupied (entries m))) \<le> length (entries ?m0)"
    using o0 by simp
  from reinsert_returns [OF s0 z0 c0, of h zk zv] obtain m1 where
    "reinsert (Put h zk zv) (entries m) ?m0 = Some (Inr m1)" "shape_ok m1"
    "length (entries m1) = length (entries ?m0)" "size_m m1 = int (occ_count m1)"
    "occ_count m1 \<le> occ_count ?m0 + length (filter occupied (entries m))"
    by blast
  then show ?thesis
    using assms(2) o0 by (simp add: resize_def resize_with_def Let_def occ_count_def)
qed

lemma resize_too_large:
  "max_slots < length (entries m) * 2 \<Longrightarrow>
   resize h zk zv m = Some (Inl MakeSliceLenOutOfRange)"
  by (simp add: resize_def resize_with_def Let_def)

text \<open>The entry that a call of \<^verbatim>\<open>Put\<close> leaves for its key.\<close>

lemma Put_returns:
  assumes "simple_inv m" "over_load m \<longrightarrow> length (entries m) * 2 \<le> max_slots"
  shows "\<exists>m'. Put h zk zv m k v = Some (Inr m') \<and> simple_inv m' \<and>
      (\<exists>p<length (entries m').
         occupied (entries m' ! p) \<and> key (entries m' ! p) = k \<and> val (entries m' ! p) = v) \<and>
      (length (entries m') = length (entries m) \<or> length (entries m') = length (entries m) * 2) \<and>
      size_m m' \<le> size_m m + 1"
proof -
  let ?L = "length (entries m)"
  from assms(1) have sh: "shape_ok m" and sz: "size_m m = int (occ_count m)"
    and ld: "4 * size_m m \<le> 3 * int ?L"
    unfolding simple_inv_def by blast+
  have L8: "8 \<le> ?L" using sh by (rule shape_ok_len_ge8)
  show ?thesis
  proof (cases "over_load m")
    case False
    have "0 < ?L" using sh by (rule shape_ok_len_pos)
    from False over_load_iff [OF this] have small: "4 * (size_m m + 1) \<le> 3 * int ?L"
      by simp
    then have "occ_count m < ?L" using sz by simp
    from put_probe_returns [OF sh this, of k v h] obtain m' g where
      r: "put_loop m k v 0 (h k AND mask_m m) = Some (Inr m')"
      and post: "put_post m k v (unat (h k AND mask_m m)) g m'"
      by blast
    from post have p: "length (entries m') = ?L" "mask_m m' = mask_m m"
      "size_m m' - int (occ_count m') = size_m m - int (occ_count m)"
      "occ_count m' \<le> occ_count m + 1"
      "\<exists>p<?L. occupied (entries m' ! p) \<and> key (entries m' ! p) = k \<and> val (entries m' ! p) = v"
      unfolding put_post_def by blast+
    have "simple_inv m'"
      unfolding simple_inv_def using post sh p sz small by (simp add: put_post_shape)
    moreover have "size_m m' \<le> size_m m + 1" using p(3,4) by simp
    ultimately show ?thesis using r p False by (simp add: Put_no_resize)
  next
    case True
    with assms(2) have alloc: "?L * 2 \<le> max_slots" by simp
    from resize_returns [OF sh alloc, of h zk zv] obtain m1 where
      rz: "resize h zk zv m = Some (Inr m1)" and sh1: "shape_ok m1"
      and len1: "length (entries m1) = ?L * 2"
      and sz1: "size_m m1 = int (occ_count m1)" and oc1: "occ_count m1 \<le> occ_count m"
      by blast
    have "occ_count m \<le> ?L" by (rule occ_count_le)
    with oc1 len1 L8 have "occ_count m1 < length (entries m1)" by simp
    from put_probe_returns [OF sh1 this, of k v h] obtain m' g where
      r: "put_loop m1 k v 0 (h k AND mask_m m1) = Some (Inr m')"
      and post: "put_post m1 k v (unat (h k AND mask_m m1)) g m'"
      by blast
    from post have p: "length (entries m') = length (entries m1)"
      "size_m m' - int (occ_count m') = size_m m1 - int (occ_count m1)"
      "occ_count m' \<le> occ_count m1 + 1"
      "\<exists>p<length (entries m1).
          occupied (entries m' ! p) \<and> key (entries m' ! p) = k \<and> val (entries m' ! p) = v"
      unfolding put_post_def by blast+
    have "4 * int (occ_count m') \<le> 3 * int (length (entries m'))"
      using p(1,3) oc1 len1 sz ld L8 by simp
    then have "simple_inv m'"
      unfolding simple_inv_def using post sh1 p sz1 by (simp add: put_post_shape)
    moreover have "size_m m' \<le> size_m m + 1" using p(2,3) sz1 oc1 sz by simp
    ultimately show ?thesis using r rz p len1 True by (simp add: Put_resize)
  qed
qed

lemma Put_preserves_simple_inv:
  assumes "simple_inv m" "Put h zk zv m k v = Some (Inr m')"
  shows "simple_inv m'"
proof (cases "over_load m \<and> max_slots < length (entries m) * 2")
  case True
  then have "Put h zk zv m k v = Some (Inl MakeSliceLenOutOfRange)"
    by (simp add: Put_resize resize_too_large)
  with assms(2) show ?thesis by simp
next
  case False
  then have "over_load m \<longrightarrow> length (entries m) * 2 \<le> max_slots" by auto
  from Put_returns [OF assms(1) this, of h zk zv k v] assms(2) show ?thesis by auto
qed

section \<open>Get and Remove return in every state with a free slot\<close>

lemma get_loop_stop:
  assumes "unat index < length (entries m)"
    "\<not> occupied (entries m ! unat index) \<or> distance (entries m ! unat index) < d"
  shows "get_loop zv m k d index = Some (Inr (zv, False))"
  using assms by (subst get_loop.simps) auto

lemma get_loop_hit:
  assumes "unat index < length (entries m)" "occupied (entries m ! unat index)"
    "\<not> distance (entries m ! unat index) < d" "key (entries m ! unat index) = k"
  shows "get_loop zv m k d index = Some (Inr (val (entries m ! unat index), True))"
  using assms by (subst get_loop.simps) simp

lemma get_loop_pass:
  assumes "unat index < length (entries m)" "occupied (entries m ! unat index)"
    "\<not> distance (entries m ! unat index) < d" "key (entries m ! unat index) \<noteq> k"
  shows "get_loop zv m k d index = get_loop zv m k (d + 1) ((index + 1) AND mask_m m)"
  using assms by (subst get_loop.simps) (simp add: Let_def)

lemma remove_loop_stop:
  assumes "unat index < length (entries m)"
    "\<not> occupied (entries m ! unat index) \<or> distance (entries m ! unat index) < d"
  shows "remove_loop m k d index = Some (Inr (False, m))"
  using assms by (subst remove_loop.simps) auto

lemma remove_loop_hit:
  assumes "unat index < length (entries m)" "occupied (entries m ! unat index)"
    "\<not> distance (entries m ! unat index) < d" "key (entries m ! unat index) = k"
  shows "remove_loop m k d index =
    shift_loop (m\<lparr>size_m := size_m m - 1\<rparr>) index ((index + 1) AND mask_m m)"
  using assms by (subst remove_loop.simps) simp

lemma remove_loop_pass:
  assumes "unat index < length (entries m)" "occupied (entries m ! unat index)"
    "\<not> distance (entries m ! unat index) < d" "key (entries m ! unat index) \<noteq> k"
  shows "remove_loop m k d index = remove_loop m k (d + 1) ((index + 1) AND mask_m m)"
  using assms by (subst remove_loop.simps) (simp add: Let_def)

lemma shift_loop_stop:
  assumes "unat nextIndex < length (entries m)"
    "\<not> occupied (entries m ! unat nextIndex) \<or> distance (entries m ! unat nextIndex) = 0"
  shows "shift_loop m index nextIndex =
    Some (Inr (True, m\<lparr>entries := (entries m)[unat index :=
                          (entries m ! unat index)\<lparr>occupied := False\<rparr>]\<rparr>))"
  using assms by (subst shift_loop.simps) auto

lemma shift_loop_move:
  assumes "unat nextIndex < length (entries m)"
    "occupied (entries m ! unat nextIndex)" "distance (entries m ! unat nextIndex) \<noteq> 0"
  shows "shift_loop m index nextIndex =
    shift_loop (m\<lparr>entries := (entries m)[unat index :=
                   (entries m ! unat nextIndex)\<lparr>distance := distance (entries m ! unat nextIndex) - 1\<rparr>]\<rparr>)
      nextIndex ((nextIndex + 1) AND mask_m m)"
  using assms by (subst shift_loop.simps) (simp add: Let_def)

lemma get_loop_returns:
  assumes "shape_ok m" "unat index < length (entries m)" "g < length (entries m)"
    "\<not> occupied (entries m ! ((unat index + g) mod length (entries m)))"
  shows "\<exists>r. get_loop zv m k d index = Some (Inr r)"
  using assms
proof (induction g arbitrary: d index)
  case 0
  then have "get_loop zv m k d index = Some (Inr (zv, False))"
    by (intro get_loop_stop) simp_all
  then show ?case by blast
next
  case (Suc g)
  let ?L = "length (entries m)"
  let ?e = "entries m ! unat index"
  let ?index' = "(index + 1) AND mask_m m"
  have i': "unat ?index' = (unat index + 1) mod ?L"
    using Suc.prems(1) by (rule next_index)
  have free_at: "(unat ?index' + g) mod ?L = (unat index + Suc g) mod ?L"
    unfolding i' by (rule cyc_step)
  consider (stop) "\<not> occupied ?e \<or> distance ?e < d"
    | (hit) "occupied ?e" "\<not> distance ?e < d" "key ?e = k"
    | (pass) "occupied ?e" "\<not> distance ?e < d" "key ?e \<noteq> k"
    by blast
  then show ?case
  proof cases
    case stop
    with Suc.prems(2) have "get_loop zv m k d index = Some (Inr (zv, False))"
      by (rule get_loop_stop)
    then show ?thesis by blast
  next
    case hit
    with Suc.prems(2) have "get_loop zv m k d index = Some (Inr (val ?e, True))"
      by (intro get_loop_hit)
    then show ?thesis by blast
  next
    case pass
    have "\<exists>r. get_loop zv m k (d + 1) ?index' = Some (Inr r)"
    proof (rule Suc.IH [OF Suc.prems(1)])
      show "unat ?index' < ?L" using Suc.prems(1) by (rule next_index_less)
      show "g < ?L" using Suc.prems(3) by simp
      show "\<not> occupied (entries m ! ((unat ?index' + g) mod ?L))"
        using Suc.prems(4) free_at by simp
    qed
    with get_loop_pass [OF Suc.prems(2) pass] show ?thesis by simp
  qed
qed

lemma remove_loop_absent:
  assumes "shape_ok m" "unat index < length (entries m)" "g < length (entries m)"
    "\<not> occupied (entries m ! ((unat index + g) mod length (entries m)))"
    "\<forall>j<length (entries m). occupied (entries m ! j) \<longrightarrow> key (entries m ! j) \<noteq> k"
  shows "remove_loop m k d index = Some (Inr (False, m))"
  using assms(1-4)
proof (induction g arbitrary: d index)
  case 0
  then show ?case by (simp add: remove_loop_stop)
next
  case (Suc g)
  let ?L = "length (entries m)"
  let ?e = "entries m ! unat index"
  let ?index' = "(index + 1) AND mask_m m"
  have i': "unat ?index' = (unat index + 1) mod ?L"
    using Suc.prems(1) by (rule next_index)
  have free_at: "(unat ?index' + g) mod ?L = (unat index + Suc g) mod ?L"
    unfolding i' by (rule cyc_step)
  show ?case
  proof (cases "\<not> occupied ?e \<or> distance ?e < d")
    case True
    with Suc.prems(2) show ?thesis by (simp add: remove_loop_stop)
  next
    case False
    then have occ: "occupied ?e" and nd: "\<not> distance ?e < d" by simp_all
    from assms(5) Suc.prems(2) occ have ne: "key ?e \<noteq> k" by blast
    have "remove_loop m k (d + 1) ?index' = Some (Inr (False, m))"
    proof (rule Suc.IH [OF Suc.prems(1)])
      show "unat ?index' < ?L" using Suc.prems(1) by (rule next_index_less)
      show "g < ?L" using Suc.prems(3) by simp
      show "\<not> occupied (entries m ! ((unat ?index' + g) mod ?L))"
        using Suc.prems(4) free_at by simp
    qed
    with remove_loop_pass [OF Suc.prems(2) occ nd ne] show ?thesis by simp
  qed
qed

lemma shift_loop_returns:
  assumes "shape_ok m" "unat index < length (entries m)"
    "unat nextIndex = (unat index + 1) mod length (entries m)"
    "occupied (entries m ! unat index)" "g < length (entries m)"
    "\<not> occupied (entries m ! ((unat nextIndex + g) mod length (entries m)))"
  shows "\<exists>m'. shift_loop m index nextIndex = Some (Inr (True, m')) \<and>
      length (entries m') = length (entries m) \<and> mask_m m' = mask_m m \<and>
      size_m m' = size_m m \<and> occ_count m' + 1 = occ_count m"
  using assms
proof (induction g arbitrary: m index nextIndex)
  case 0
  let ?m' = "m\<lparr>entries := (entries m)[unat index := (entries m ! unat index)\<lparr>occupied := False\<rparr>]\<rparr>"
  have nl: "unat nextIndex < length (entries m)"
    using 0(1,3) shape_ok_len_pos [of m] by simp
  from 0 nl have "\<not> occupied (entries m ! unat nextIndex)" by simp
  with nl have "shift_loop m index nextIndex = Some (Inr (True, ?m'))"
    by (intro shift_loop_stop) simp_all
  moreover have "occ_count ?m' + 1 = occ_count m"
    using occ_count_update [OF 0(2), of "(entries m ! unat index)\<lparr>occupied := False\<rparr>"] 0(4)
    by simp
  ultimately show ?case by simp
next
  case (Suc g)
  let ?L = "length (entries m)"
  let ?ne = "entries m ! unat nextIndex"
  have pos: "0 < ?L" using Suc.prems(1) by (rule shape_ok_len_pos)
  have L8: "8 \<le> ?L" using Suc.prems(1) by (rule shape_ok_len_ge8)
  have nl: "unat nextIndex < ?L" using Suc.prems(3) pos by simp
  show ?case
  proof (cases "\<not> occupied ?ne \<or> distance ?ne = 0")
    case True
    let ?m' = "m\<lparr>entries := (entries m)[unat index := (entries m ! unat index)\<lparr>occupied := False\<rparr>]\<rparr>"
    from nl True have "shift_loop m index nextIndex = Some (Inr (True, ?m'))"
      by (rule shift_loop_stop)
    moreover have "occ_count ?m' + 1 = occ_count m"
      using occ_count_update [OF Suc.prems(2), of "(entries m ! unat index)\<lparr>occupied := False\<rparr>"]
        Suc.prems(4) by simp
    ultimately show ?thesis by simp
  next
    case False
    then have occ: "occupied ?ne" and nz: "distance ?ne \<noteq> 0" by simp_all
    let ?m2 = "m\<lparr>entries := (entries m)[unat index := ?ne\<lparr>distance := distance ?ne - 1\<rparr>]\<rparr>"
    let ?next' = "(nextIndex + 1) AND mask_m m"
    have ne_idx: "unat nextIndex \<noteq> unat index"
      unfolding Suc.prems(3) using Suc.prems(2) L8 by (intro cyc_ne) simp_all
    have n': "unat ?next' = (unat nextIndex + 1) mod ?L"
      using Suc.prems(1) by (rule next_index)
    have free_at: "(unat ?next' + g) mod ?L = (unat nextIndex + Suc g) mod ?L"
      unfolding n' by (rule cyc_step)
    have free_ne: "(unat nextIndex + Suc g) mod ?L \<noteq> unat index"
      using Suc.prems(4,6) by auto
    have occ2: "occ_count ?m2 = occ_count m"
      using occ_count_update [OF Suc.prems(2), of "?ne\<lparr>distance := distance ?ne - 1\<rparr>"]
        Suc.prems(4) occ by simp
    have "\<exists>m'. shift_loop ?m2 nextIndex ?next' = Some (Inr (True, m')) \<and>
      length (entries m') = length (entries ?m2) \<and> mask_m m' = mask_m ?m2 \<and>
      size_m m' = size_m ?m2 \<and> occ_count m' + 1 = occ_count ?m2"
    proof (rule Suc.IH)
      show "shape_ok ?m2" using Suc.prems(1) by simp
      show "unat nextIndex < length (entries ?m2)" using nl by simp
      show "unat ?next' = (unat nextIndex + 1) mod length (entries ?m2)" using n' by simp
      show "occupied (entries ?m2 ! unat nextIndex)" using occ ne_idx by simp
      show "g < length (entries ?m2)" using Suc.prems(5) by simp
      show "\<not> occupied (entries ?m2 ! ((unat ?next' + g) mod length (entries ?m2)))"
        using Suc.prems(6) free_at free_ne by simp
    qed
    then obtain m' where "shift_loop ?m2 nextIndex ?next' = Some (Inr (True, m'))"
      "length (entries m') = ?L" "mask_m m' = mask_m m" "size_m m' = size_m m"
      "occ_count m' + 1 = occ_count ?m2"
      by auto
    with shift_loop_move [OF nl occ nz, of index] occ2 show ?thesis by simp
  qed
qed

lemma remove_loop_returns:
  assumes "shape_ok m" "occ_count m < length (entries m)"
    "unat index < length (entries m)" "g < length (entries m)"
    "\<not> occupied (entries m ! ((unat index + g) mod length (entries m)))"
  shows "\<exists>b m'. remove_loop m k d index = Some (Inr (b, m')) \<and>
      length (entries m') = length (entries m) \<and> mask_m m' = mask_m m \<and>
      size_m m' - int (occ_count m') = size_m m - int (occ_count m) \<and>
      size_m m' \<le> size_m m"
  using assms(3-5)
proof (induction g arbitrary: d index)
  case 0
  then have "remove_loop m k d index = Some (Inr (False, m))"
    by (intro remove_loop_stop) simp_all
  then show ?case by auto
next
  case (Suc g)
  let ?L = "length (entries m)"
  let ?e = "entries m ! unat index"
  let ?index' = "(index + 1) AND mask_m m"
  have i': "unat ?index' = (unat index + 1) mod ?L"
    using assms(1) by (rule next_index)
  have i'_less: "unat ?index' < ?L" using assms(1) by (rule next_index_less)
  have free_at: "(unat ?index' + g) mod ?L = (unat index + Suc g) mod ?L"
    unfolding i' by (rule cyc_step)
  consider (stop) "\<not> occupied ?e \<or> distance ?e < d"
    | (hit) "occupied ?e" "\<not> distance ?e < d" "key ?e = k"
    | (pass) "occupied ?e" "\<not> distance ?e < d" "key ?e \<noteq> k"
    by blast
  then show ?case
  proof cases
    case stop
    with Suc.prems(1) have "remove_loop m k d index = Some (Inr (False, m))"
      by (rule remove_loop_stop)
    then show ?thesis by auto
  next
    case hit
    let ?m1 = "m\<lparr>size_m := size_m m - 1\<rparr>"
    have occ1: "occ_count ?m1 < length (entries ?m1)" using assms(2) by simp
    have il: "unat ?index' < length (entries ?m1)" using i'_less by simp
    from free_slot_ahead [OF occ1 il] obtain g' where g':
      "g' < length (entries ?m1)"
      "\<not> occupied (entries ?m1 ! ((unat ?index' + g') mod length (entries ?m1)))"
      by blast
    have "\<exists>m'. shift_loop ?m1 index ?index' = Some (Inr (True, m')) \<and>
      length (entries m') = length (entries ?m1) \<and> mask_m m' = mask_m ?m1 \<and>
      size_m m' = size_m ?m1 \<and> occ_count m' + 1 = occ_count ?m1"
    proof (rule shift_loop_returns [OF _ _ _ _ g'])
      show "shape_ok ?m1" using assms(1) by simp
      show "unat index < length (entries ?m1)" using Suc.prems(1) by simp
      show "unat ?index' = (unat index + 1) mod length (entries ?m1)" using i' by simp
      show "occupied (entries ?m1 ! unat index)" using hit(1) by simp
    qed
    then obtain m' where "shift_loop ?m1 index ?index' = Some (Inr (True, m'))"
      "length (entries m') = ?L" "mask_m m' = mask_m m" "size_m m' = size_m m - 1"
      "occ_count m' + 1 = occ_count m"
      by auto
    with remove_loop_hit [OF Suc.prems(1) hit] show ?thesis by auto
  next
    case pass
    have "\<exists>b m'. remove_loop m k (d + 1) ?index' = Some (Inr (b, m')) \<and>
      length (entries m') = length (entries m) \<and> mask_m m' = mask_m m \<and>
      size_m m' - int (occ_count m') = size_m m - int (occ_count m) \<and>
      size_m m' \<le> size_m m"
    proof (rule Suc.IH [OF i'_less])
      show "g < ?L" using Suc.prems(2) by simp
      show "\<not> occupied (entries m ! ((unat ?index' + g) mod ?L))"
        using Suc.prems(3) free_at by simp
    qed
    with remove_loop_pass [OF Suc.prems(1) pass] show ?thesis by simp
  qed
qed

lemma simple_inv_free:
  assumes "simple_inv m"
  shows "occ_count m < length (entries m)"
proof -
  from assms have "8 \<le> length (entries m)"
    unfolding simple_inv_def by (blast intro: shape_ok_len_ge8)
  with assms show ?thesis unfolding simple_inv_def by simp
qed

lemma Remove_returns:
  assumes "simple_inv m"
  shows "\<exists>b m'. Remove h m k = Some (Inr (b, m')) \<and> simple_inv m'"
proof -
  from assms have sh: "shape_ok m" and sz: "size_m m = int (occ_count m)"
    and ld: "4 * size_m m \<le> 3 * int (length (entries m))"
    unfolding simple_inv_def by blast+
  have fr: "occ_count m < length (entries m)" using assms by (rule simple_inv_free)
  have i: "unat (h k AND mask_m m) < length (entries m)" using sh by (rule home_index_less)
  from free_slot_ahead [OF fr i] obtain g where g: "g < length (entries m)"
    "\<not> occupied (entries m ! ((unat (h k AND mask_m m) + g) mod length (entries m)))"
    by blast
  from remove_loop_returns [OF sh fr i g, of k 0] obtain b m' where
    r: "remove_loop m k 0 (h k AND mask_m m) = Some (Inr (b, m'))"
    and p: "length (entries m') = length (entries m)" "mask_m m' = mask_m m"
      "size_m m' - int (occ_count m') = size_m m - int (occ_count m)"
      "size_m m' \<le> size_m m"
    by blast
  have "shape_ok m'" using sh p(1,2) by (simp add: shape_ok_def)
  then have "simple_inv m'" unfolding simple_inv_def using p sz ld by simp
  with r show ?thesis by (auto simp: Remove_def)
qed

lemma simple_inv_new: "simple_inv (NewRobinHoodMap zk zv)"
proof -
  have "shape_ok (NewRobinHoodMap zk zv)"
    unfolding shape_ok_def NewRobinHoodMap_def
    by (intro bexI [of _ 3]) (simp_all add: mask7)
  then show ?thesis
    by (simp add: simple_inv_def NewRobinHoodMap_def occ_count_def zero_entry_def)
qed

lemma simple_inv_clear: "simple_inv (Clear zk zv m)"
proof -
  have "shape_ok (Clear zk zv m)"
    unfolding shape_ok_def Clear_def
    by (intro bexI [of _ 3]) (simp_all add: mask7)
  then show ?thesis
    by (simp add: simple_inv_def Clear_def occ_count_def zero_entry_def)
qed

lemma exec_Put:
  "exec h zk zv (CallPut k v) m = Some (Inr (r, m')) \<longleftrightarrow>
   r = RetUnit \<and> Put h zk zv m k v = Some (Inr m')"
proof (cases "Put h zk zv m k v")
  case None
  then show ?thesis by (simp add: exec_def)
next
  case (Some a)
  then show ?thesis by (cases a) (auto simp: exec_def)
qed

lemma exec_Get:
  "exec h zk zv (CallGet k) m = Some (Inr (r, m')) \<longleftrightarrow>
   m' = m \<and> (\<exists>v b. r = RetGet v b \<and> Get h zv m k = Some (Inr (v, b)))"
proof (cases "Get h zv m k")
  case None
  then show ?thesis by (simp add: exec_def)
next
  case (Some a)
  then show ?thesis by (cases a) (auto simp: exec_def)
qed

lemma exec_Remove:
  "exec h zk zv (CallRemove k) m = Some (Inr (r, m')) \<longleftrightarrow>
   (\<exists>b. r = RetRemove b \<and> Remove h m k = Some (Inr (b, m')))"
proof (cases "Remove h m k")
  case None
  then show ?thesis by (simp add: exec_def)
next
  case (Some a)
  then show ?thesis by (cases a) (auto simp: exec_def)
qed

lemma exec_Size:
  "exec h zk zv CallSize m = Some (Inr (r, m')) \<longleftrightarrow> r = RetSize (Size m) \<and> m' = m"
  by (auto simp: exec_def)

lemma exec_Clear:
  "exec h zk zv CallClear m = Some (Inr (r, m')) \<longleftrightarrow> r = RetUnit \<and> m' = Clear zk zv m"
  by (auto simp: exec_def)

lemma reachable_simple_inv:
  assumes "reachable h zk zv m"
  shows "simple_inv m"
  using assms
proof (induction rule: reachable.induct)
  case reachable_new
  show ?case by (rule simple_inv_new)
next
  case (reachable_exec m c r m')
  show ?case
  proof (cases c)
    case (CallPut k v)
    with reachable_exec.hyps(2) have "Put h zk zv m k v = Some (Inr m')"
      by (simp add: exec_Put)
    with reachable_exec.IH show ?thesis by (rule Put_preserves_simple_inv)
  next
    case (CallGet k)
    with reachable_exec.hyps(2) have "m' = m"
      by (simp add: exec_Get)
    with reachable_exec.IH show ?thesis by simp
  next
    case (CallRemove k)
    with reachable_exec.hyps(2) obtain b where "Remove h m k = Some (Inr (b, m'))"
      by (auto simp: exec_Remove)
    with Remove_returns [OF reachable_exec.IH, of h k] show ?thesis by auto
  next
    case CallSize
    with reachable_exec.hyps(2) reachable_exec.IH show ?thesis by (simp add: exec_Size)
  next
    case CallClear
    with reachable_exec.hyps(2) show ?thesis by (simp add: exec_Clear simple_inv_clear)
  qed
qed

section \<open>Example runs\<close>

lemma bind_weak_cong: "x = y \<Longrightarrow> Option.bind x f = Option.bind y f" by simp

lemma replicate_8: "replicate 8 x = [x, x, x, x, x, x, x, x]"
  by (simp add: numeral_eq_Suc)

lemmas eval_simps = exec_def Put.simps put_loop.simps get_loop.simps remove_loop.simps
  shift_loop.simps Get_def Remove_def Size_def Clear_def NewRobinHoodMap_def zero_entry_def
  over_load_def resize_with_def max_slots_def Let_def replicate_8 hash_low_def hash_same_def

lemma exec_all_reachable:
  assumes "reachable h zk zv m" "exec_all h zk zv cs m = Some (Inr m')"
  shows "reachable h zk zv m'"
  using assms
proof (induction cs arbitrary: m)
  case Nil
  then show ?case by simp
next
  case (Cons c cs)
  have "\<exists>x m1. exec h zk zv c m = Some (Inr (x, m1)) \<and> exec_all h zk zv cs m1 = Some (Inr m')"
  proof (cases "exec h zk zv c m")
    case None
    with Cons.prems(2) show ?thesis by simp
  next
    case (Some a)
    with Cons.prems(2) show ?thesis by (cases a) auto
  qed
  then obtain x m1 where
    e: "exec h zk zv c m = Some (Inr (x, m1))" and r: "exec_all h zk zv cs m1 = Some (Inr m')"
    by blast
  from Cons.prems(1) e have "reachable h zk zv m1" by (rule reachable_exec)
  from Cons.IH [OF this r] show ?case .
qed

lemma ex1_run:
  "exec_all hash_low 0 0 [CallPut 1 10, CallPut 9 90, CallRemove 1] (NewRobinHoodMap 0 0)
     = Some (Inr ex1)"
  by (simp add: eval_simps ex1_def cong: bind_weak_cong sum.case_cong_weak if_weak_cong)

lemma ex1_reachable: "reachable hash_low 0 0 ex1"
  using reachable_new ex1_run by (rule exec_all_reachable)


lemma ex2_run:
  "exec_all hash_low 0 0
     [CallPut 1 10, CallPut 9 90, CallPut 3 30, CallPut 4 40, CallPut 5 50, CallPut 6 60]
     (NewRobinHoodMap 0 0) = Some (Inr ex2)"
  by (simp add: eval_simps ex2_def slot_def
      cong: bind_weak_cong sum.case_cong_weak if_weak_cong)

lemma ex2_reachable: "reachable hash_low 0 0 ex2"
  using reachable_new ex2_run by (rule exec_all_reachable)

lemma ex2_over_load: "over_load ex2"
  by (simp add: over_load_def ex2_def)

section \<open>What holds in every reachable state\<close>

lemma keys_of_nth:
  "j < length (entries m) \<Longrightarrow> occupied (entries m ! j) \<Longrightarrow> key (entries m ! j) \<in> keys_of m"
  by (auto simp: keys_of_def)

text \<open>
  C7: in every reachable state the size field is the number of occupied slots, and a
  resize of such a state that returns leaves a state where it is, too.
\<close>

theorem C7_size_counts_occupied:
  assumes "reachable h zk zv m"
  shows "size_m m = int (length (filter occupied (entries m))) \<and>
    (\<forall>m1. resize h zk zv m = Some (Inr m1) \<longrightarrow>
       size_m m1 = int (length (filter occupied (entries m1))))"
proof -
  from assms have inv: "simple_inv m" by (rule reachable_simple_inv)
  then have sh: "shape_ok m" by (simp add: simple_inv_def)
  have "size_m m1 = int (length (filter occupied (entries m1)))"
    if r: "resize h zk zv m = Some (Inr m1)" for m1
  proof (cases "length (entries m) * 2 \<le> max_slots")
    case True
    from resize_returns [OF sh True, of h zk zv] r show ?thesis
      by (auto simp: occ_count_def)
  next
    case False
    then have "resize h zk zv m = Some (Inl MakeSliceLenOutOfRange)"
      by (intro resize_too_large) simp
    with r show ?thesis by simp
  qed
  with inv show ?thesis by (simp add: simple_inv_def occ_count_def)
qed

theorem C7_witness:
  "reachable hash_low 0 0 ex1 \<and> size_m ex1 = int (length (filter occupied (entries ex1)))"
  using ex1_reachable C7_size_counts_occupied [OF ex1_reachable] by blast

text \<open>
  C8: on every reachable state some slot is free, and \<^verbatim>\<open>Put\<close> returns with the key and
  the value in an occupied slot, provided the doubled array can be allocated when the
  load-factor test asks for it.
\<close>

theorem C8_Put_returns:
  assumes "reachable h zk zv m" "over_load m \<longrightarrow> length (entries m) * 2 \<le> max_slots"
  shows "(\<exists>j<length (entries m). \<not> occupied (entries m ! j)) \<and>
    (\<exists>m'. Put h zk zv m k v = Some (Inr m') \<and>
       (\<exists>p<length (entries m').
          occupied (entries m' ! p) \<and> key (entries m' ! p) = k \<and> val (entries m' ! p) = v))"
proof -
  from assms(1) have inv: "simple_inv m" by (rule reachable_simple_inv)
  from inv have "occ_count m < length (entries m)" by (rule simple_inv_free)
  then have "\<exists>j<length (entries m). \<not> occupied (entries m ! j)" by (rule free_slot_exists)
  moreover from Put_returns [OF inv assms(2), of h zk zv k v]
  have "\<exists>m'. Put h zk zv m k v = Some (Inr m') \<and>
       (\<exists>p<length (entries m').
          occupied (entries m' ! p) \<and> key (entries m' ! p) = k \<and> val (entries m' ! p) = v)"
    by blast
  ultimately show ?thesis by blast
qed


theorem C8_witness:
  "reachable hash_low 0 0 ex2 \<and> over_load ex2 \<and> length (entries ex2) * 2 \<le> max_slots \<and>
   (\<exists>j<length (entries ex2). \<not> occupied (entries ex2 ! j)) \<and>
   (\<exists>m'. Put hash_low 0 0 ex2 7 70 = Some (Inr m') \<and>
      (\<exists>p<length (entries m').
         occupied (entries m' ! p) \<and> key (entries m' ! p) = 7 \<and> val (entries m' ! p) = 70))"
proof -
  have a: "length (entries ex2) * 2 \<le> max_slots"
    by (simp add: ex2_def max_slots_def)
  then have "over_load ex2 \<longrightarrow> length (entries ex2) * 2 \<le> max_slots" by simp
  from C8_Put_returns [OF ex2_reachable this, of 7 70] ex2_reachable ex2_over_load a
  show ?thesis by blast
qed

text \<open>
  C10: on every reachable state \<^verbatim>\<open>Get\<close> and \<^verbatim>\<open>Size\<close> return, and the state after the
  call (slots, size and mask) is the state before it.
\<close>

theorem C10_Get_Size_frame:
  assumes "reachable h zk zv m"
  shows "(\<exists>v b. exec h zk zv (CallGet k) m = Some (Inr (RetGet v b, m))) \<and>
    exec h zk zv CallSize m = Some (Inr (RetSize (size_m m), m))"
proof -
  from assms have inv: "simple_inv m" by (rule reachable_simple_inv)
  then have sh: "shape_ok m" by (simp add: simple_inv_def)
  have fr: "occ_count m < length (entries m)" using inv by (rule simple_inv_free)
  have i: "unat (h k AND mask_m m) < length (entries m)" using sh by (rule home_index_less)
  from free_slot_ahead [OF fr i] obtain g where "g < length (entries m)"
    "\<not> occupied (entries m ! ((unat (h k AND mask_m m) + g) mod length (entries m)))"
    by blast
  from get_loop_returns [OF sh i this, of zv k 0] obtain v b where
    "Get h zv m k = Some (Inr (v, b))"
    by (auto simp: Get_def)
  then have "exec h zk zv (CallGet k) m = Some (Inr (RetGet v b, m))"
    by (simp add: exec_Get)
  moreover have "exec h zk zv CallSize m = Some (Inr (RetSize (size_m m), m))"
    by (simp add: exec_Size Size_def)
  ultimately show ?thesis by blast
qed

theorem C10_witness:
  "reachable hash_low 0 0 ex1 \<and>
   (\<exists>v b. exec hash_low 0 0 (CallGet 9) ex1 = Some (Inr (RetGet v b, ex1))) \<and>
   exec hash_low 0 0 CallSize ex1 = Some (Inr (RetSize (size_m ex1), ex1))"
  using ex1_reachable C10_Get_Size_frame [OF ex1_reachable, of 9] by blast

text \<open>
  C4: on every reachable state, \<^verbatim>\<open>Remove\<close> of a key that no occupied slot holds returns
  false and leaves the state (slots, size and mask) as it was.
\<close>

theorem C4_Remove_absent:
  assumes "reachable h zk zv m" "k \<notin> keys_of m"
  shows "Remove h m k = Some (Inr (False, m))"
proof -
  from assms(1) have inv: "simple_inv m" by (rule reachable_simple_inv)
  then have sh: "shape_ok m" by (simp add: simple_inv_def)
  have fr: "occ_count m < length (entries m)" using inv by (rule simple_inv_free)
  have i: "unat (h k AND mask_m m) < length (entries m)" using sh by (rule home_index_less)
  from free_slot_ahead [OF fr i] obtain g where g: "g < length (entries m)"
    "\<not> occupied (entries m ! ((unat (h k AND mask_m m) + g) mod length (entries m)))"
    by blast
  have "\<forall>j<length (entries m). occupied (entries m ! j) \<longrightarrow> key (entries m ! j) \<noteq> k"
    using assms(2) keys_of_nth by blast
  from remove_loop_absent [OF sh i g this] show ?thesis by (simp add: Remove_def)
qed

lemma ex1_keys: "keys_of ex1 = {9}"
  by (simp add: keys_of_def ex1_def)

theorem C4_witness:
  "reachable hash_low 0 0 ex1 \<and> 1 \<notin> keys_of ex1 \<and>
   Remove hash_low ex1 1 = Some (Inr (False, ex1))"
proof -
  have "1 \<notin> keys_of ex1" by (simp add: ex1_keys)
  with ex1_reachable C4_Remove_absent [OF ex1_reachable, of 1] show ?thesis by blast
qed

text \<open>
  C5: after \<^verbatim>\<open>Clear\<close> on any state the size is 0, the array has the 8 slots of a fresh
  table, none of them occupied, the mask is 7, and \<^verbatim>\<open>Get\<close> of every key returns the zero
  value and false.
\<close>

theorem C5_Clear_resets:
  "Size (Clear zk zv m) = 0 \<and>
   entries (Clear zk zv m) = replicate 8 (zero_entry zk zv) \<and>
   \<not> occupied (zero_entry zk zv) \<and>
   mask_m (Clear zk zv m) = 7 \<and>
   Get h zv (Clear zk zv m) k = Some (Inr (zv, False))"
proof -
  have "shape_ok (Clear zk zv m)"
    using simple_inv_clear [of zk zv m] by (simp add: simple_inv_def)
  then have "unat (h k AND mask_m (Clear zk zv m)) < length (entries (Clear zk zv m))"
    by (rule home_index_less)
  then have i: "unat (h k AND 7) < 8" by (simp add: Clear_def)
  have "get_loop zv (Clear zk zv m) k 0 (h k AND 7) = Some (Inr (zv, False))"
    using i by (intro get_loop_stop) (simp_all add: Clear_def zero_entry_def)
  then show ?thesis by (simp add: Get_def Size_def Clear_def zero_entry_def)
qed

section \<open>Put of a key that Get finds\<close>








section \<open>Put keeps the Robin Hood invariant, and Get relies on it\<close>

subsection \<open>Monotonicity of the invariant's parts\<close>



lemma probe_path_0 [simp]: "probe_path m b 0"
  by (simp add: probe_path_def)

lemma home_entries_update [simp]: "home h (m\<lparr>entries := es\<rparr>) k = home h m k"
  by (simp add: home_def)

lemma home_size_update [simp]: "home h (m\<lparr>size_m := s\<rparr>) k = home h m k"
  by (simp add: home_def)






lemma keys_of_iff:
  "k \<in> keys_of m \<longleftrightarrow>
   (\<exists>q<length (entries m). occupied (entries m ! q) \<and> key (entries m ! q) = k)"
  unfolding keys_of_def by (auto simp: in_set_conv_nth image_iff)

lemma stored_keys_of: "stored m k v \<Longrightarrow> k \<in> keys_of m"
  unfolding stored_def keys_of_iff by blast





lemma robin_inv_size_update [simp]: "robin_inv h (m\<lparr>size_m := s\<rparr>) = robin_inv h m"
  by (simp add: robin_inv_def placed_def probe_path_def)

lemma stored_size_update [simp]: "stored (m\<lparr>size_m := s\<rparr>) k v = stored m k v"
  by (simp add: stored_def)

lemma keys_of_size_update [simp]: "keys_of (m\<lparr>size_m := s\<rparr>) = keys_of m"
  by (simp add: keys_of_def)










lemma stored_fresh:
  "\<not> stored (m\<lparr>entries := replicate n (zero_entry zk zv), mask_m := w, size_m := s\<rparr>) k v"
  by (auto simp: stored_def zero_entry_def)











section \<open>Keys that all collide: the distance wraps around\<close>

subsection \<open>Tables given slot by slot\<close>

lemma table_of_simps [simp]:
  "length (entries (table_of len f s)) = len"
  "size_m (table_of len f s) = s"
  "mask_m (table_of len f s) = of_nat (len - 1)"
  "i < len \<Longrightarrow> entries (table_of len f s) ! i = f i"
  by (simp_all add: table_of_def)

lemma map_upt_update:
  "(map f [0..<len])[i := x] = map (f(i := x)) [0..<len]"
  by (rule nth_equalityI) (auto simp: nth_list_update)

lemma table_of_update:
  "(table_of len f s)\<lparr>entries := (entries (table_of len f s))[i := x]\<rparr>
     = table_of len (f(i := x)) s"
  by (simp add: table_of_def map_upt_update)

lemma table_of_size_update:
  "(table_of len f s)\<lparr>size_m := t\<rparr> = table_of len f t"
  by (simp add: table_of_def)

lemma table_of_cong:
  "(\<And>i. i < len \<Longrightarrow> f i = g i) \<Longrightarrow> table_of len f s = table_of len g s"
  by (simp add: table_of_def)

lemma shape_ok_table_of:
  assumes "3 \<le> j" "j \<le> 47"
  shows "shape_ok (table_of (2 ^ j) f s)"
proof -
  have "(of_nat (2 ^ j - 1) :: 64 word) = mask j"
    by (simp add: mask_eq_decr_exp)
  with assms show ?thesis
    unfolding shape_ok_def by (intro bexI [of _ j]) simp_all
qed

lemma hash_same_home [simp]: "hash_same k AND w = 0"
  by (simp add: hash_same_def)

lemma word64_of_unat:
  assumes "unat (w :: 64 word) = n"
  shows "w = of_nat n"
  using assms by (auto simp: of_nat_unat)

subsection \<open>Probes that pass a run of slots\<close>

lemma put_walk:
  assumes "shape_ok m" "b < length (entries m)" "a \<le> b" "unat index = a"
    "\<And>i. a \<le> i \<Longrightarrow> i < b \<Longrightarrow>
       occupied (entries m ! i) \<and> key (entries m ! i) \<noteq> k \<and>
       distance (entries m ! i) = of_nat i"
  shows "put_loop m k v (of_nat a) index = put_loop m k v (of_nat b) (of_nat b)"
  using assms(3-5)
proof (induction "b - a" arbitrary: a index)
  case 0
  then have "a = b" by simp
  with 0(3) have "index = of_nat b" by (intro word64_of_unat) simp
  with \<open>a = b\<close> show ?case by simp
next
  case (Suc n)
  let ?L = "length (entries m)"
  let ?index' = "(index + 1) AND mask_m m"
  from Suc(2) have ab: "a < b" by simp
  from Suc(5) [of a] ab have e: "occupied (entries m ! a)" "key (entries m ! a) \<noteq> k"
    "distance (entries m ! a) = of_nat a" by simp_all
  have al: "unat index < ?L" using Suc(4) ab assms(2) by simp
  have "unat ?index' = (unat index + 1) mod ?L" using assms(1) by (rule next_index)
  also have "\<dots> = Suc a" using Suc(4) ab assms(2) by simp
  finally have i': "unat ?index' = Suc a" .
  have "put_loop m k v (of_nat a) index = put_loop m k v (of_nat a + 1) ?index'"
    using al e by (intro put_loop_pass) (simp_all add: Suc(4))
  also have "\<dots> = put_loop m k v (of_nat (Suc a)) ?index'" by (simp add: add.commute)
  also have "\<dots> = put_loop m k v (of_nat b) (of_nat b)"
  proof (rule Suc(1))
    show "n = b - Suc a" using Suc(2) by simp
    show "Suc a \<le> b" using ab by simp
    show "unat ?index' = Suc a" by (rule i')
    show "occupied (entries m ! i) \<and> key (entries m ! i) \<noteq> k \<and> distance (entries m ! i) = of_nat i"
      if "Suc a \<le> i" "i < b" for i
      using that by (intro Suc(5)) simp_all
  qed
  finally show ?case .
qed

lemma get_walk:
  assumes "shape_ok m" "b < length (entries m)" "a \<le> b" "unat index = a"
    "\<And>i. a \<le> i \<Longrightarrow> i < b \<Longrightarrow>
       occupied (entries m ! i) \<and> key (entries m ! i) \<noteq> k \<and>
       distance (entries m ! i) = of_nat i"
  shows "get_loop zv m k (of_nat a) index = get_loop zv m k (of_nat b) (of_nat b)"
  using assms(3-5)
proof (induction "b - a" arbitrary: a index)
  case 0
  then have "a = b" by simp
  with 0(3) have "index = of_nat b" by (intro word64_of_unat) simp
  with \<open>a = b\<close> show ?case by simp
next
  case (Suc n)
  let ?L = "length (entries m)"
  let ?index' = "(index + 1) AND mask_m m"
  from Suc(2) have ab: "a < b" by simp
  from Suc(5) [of a] ab have e: "occupied (entries m ! a)" "key (entries m ! a) \<noteq> k"
    "distance (entries m ! a) = of_nat a" by simp_all
  have al: "unat index < ?L" using Suc(4) ab assms(2) by simp
  have "unat ?index' = (unat index + 1) mod ?L" using assms(1) by (rule next_index)
  also have "\<dots> = Suc a" using Suc(4) ab assms(2) by simp
  finally have i': "unat ?index' = Suc a" .
  have "get_loop zv m k (of_nat a) index = get_loop zv m k (of_nat a + 1) ?index'"
    using al e by (intro get_loop_pass) (simp_all add: Suc(4))
  also have "\<dots> = get_loop zv m k (of_nat (Suc a)) ?index'" by (simp add: add.commute)
  also have "\<dots> = get_loop zv m k (of_nat b) (of_nat b)"
  proof (rule Suc(1))
    show "n = b - Suc a" using Suc(2) by simp
    show "Suc a \<le> b" using ab by simp
    show "unat ?index' = Suc a" by (rule i')
    show "occupied (entries m ! i) \<and> key (entries m ! i) \<noteq> k \<and> distance (entries m ! i) = of_nat i"
      if "Suc a \<le> i" "i < b" for i
      using that by (intro Suc(5)) simp_all
  qed
  finally show ?case .
qed

lemma unat_of_nat_slot:
  assumes "shape_ok m" "b < length (entries m)"
  shows "unat (of_nat b :: 64 word) = b"
proof -
  from assms(1) obtain n where "n \<le> 47" "length (entries m) = 2 ^ n" by (rule shape_okD)
  then have "length (entries m) \<le> 2 ^ 47"
    by (simp only: power_increasing [of n 47 "2::nat"] one_le_numeral)
  with assms(2) have "b < 2 ^ 64" by simp
  then show ?thesis by (simp add: unat_of_nat)
qed

subsection \<open>Inserting keys that all collide\<close>

lemma same_fill_Suc:
  "(same_fill n)(n := slot n n (of_nat n)) = same_fill (Suc n)"
  by (rule ext) (simp add: same_fill_def)

lemma same_put_loop:
  assumes "3 \<le> j" "j \<le> 47" "n < 2 ^ j"
  shows "put_loop (same_table (2 ^ j) n) n n 0 0 = Some (Inr (same_table (2 ^ j) (Suc n)))"
proof -
  let ?T = "same_table (2 ^ j) n"
  have sh: "shape_ok ?T" unfolding same_table_def using assms(1,2) by (rule shape_ok_table_of)
  have len: "length (entries ?T) = 2 ^ j" by (simp add: same_table_def)
  have nl: "n < length (entries ?T)" using assms(3) len by simp
  have un: "unat (of_nat n :: 64 word) = n" using sh nl by (rule unat_of_nat_slot)
  have "put_loop ?T n n (of_nat 0) 0 = put_loop ?T n n (of_nat n) (of_nat n)"
  proof (rule put_walk [OF sh nl])
    show "occupied (entries ?T ! i) \<and> key (entries ?T ! i) \<noteq> n \<and>
        distance (entries ?T ! i) = of_nat i" if "0 \<le> i" "i < n" for i
      using that assms(3) by (simp add: same_table_def same_fill_def slot_def)
  qed simp_all
  also have "\<dots> = Some (Inr (?T\<lparr>entries := (entries ?T)[unat (of_nat n :: 64 word) :=
        \<lparr>key = n, val = n, distance = of_nat n, occupied = True\<rparr>],
      size_m := size_m ?T + 1\<rparr>))"
    using nl by (intro put_loop_free)
      (simp_all add: un same_table_def same_fill_def zero_entry_def)
  also have "\<dots> = Some (Inr (same_table (2 ^ j) (Suc n)))"
    unfolding un
    by (simp add: same_table_def table_of_def map_upt_update same_fill_Suc [symmetric] slot_def)
  finally show ?thesis by simp
qed

lemma over_load_same_table:
  "0 < len \<Longrightarrow> over_load (same_table len n) \<longleftrightarrow> 3 * len < 4 * (n + 1)"
  by (simp add: over_load_iff same_table_def) linarith

lemma same_Put:
  assumes "3 \<le> j" "j \<le> 47" "4 * (n + 1) \<le> 3 * 2 ^ j"
  shows "Put hash_same 0 0 (same_table (2 ^ j) n) n n = Some (Inr (same_table (2 ^ j) (Suc n)))"
proof -
  have "\<not> over_load (same_table (2 ^ j) n)"
    using assms(3) by (simp add: over_load_same_table)
  moreover have "n < 2 ^ j" using assms(3) by simp
  ultimately show ?thesis
    using same_put_loop [OF assms(1,2)] by (simp add: Put_no_resize)
qed

lemma reinsert_skip:
  "(\<And>e. e \<in> set es \<Longrightarrow> \<not> occupied e) \<Longrightarrow> reinsert put es m = Some (Inr m)"
  by (induction es) simp_all

lemma same_reinsert:
  assumes "3 \<le> j" "Suc j \<le> 47" "n \<le> 2 ^ j" "i \<le> n"
  shows "reinsert (Put hash_same 0 0) (map (same_fill n) [i..<2 ^ j]) (same_table (2 ^ Suc j) i)
    = Some (Inr (same_table (2 ^ Suc j) n))"
  using assms(4)
proof (induction "n - i" arbitrary: i)
  case 0
  then have "i = n" by simp
  have "reinsert (Put hash_same 0 0) (map (same_fill n) [n..<2 ^ j]) (same_table (2 ^ Suc j) n)
      = Some (Inr (same_table (2 ^ Suc j) n))"
    by (rule reinsert_skip) (auto simp: same_fill_def zero_entry_def)
  with \<open>i = n\<close> show ?case by simp
next
  case (Suc d)
  then have "i < n" by simp
  with assms(3) have il: "i < 2 ^ j" by simp
  have up: "[i..<2 ^ j] = i # [Suc i..<2 ^ j]" using il by (rule upt_conv_Cons)
  have "4 * (i + 1) \<le> 3 * (2::nat) ^ Suc j" using il by simp
  with assms(1,2) have put: "Put hash_same 0 0 (same_table (2 ^ Suc j) i) i i
      = Some (Inr (same_table (2 ^ Suc j) (Suc i)))"
    by (intro same_Put) simp_all
  have "reinsert (Put hash_same 0 0) (map (same_fill n) [Suc i..<2 ^ j])
      (same_table (2 ^ Suc j) (Suc i)) = Some (Inr (same_table (2 ^ Suc j) n))"
    using Suc(2) \<open>i < n\<close> by (intro Suc(1)) simp_all
  with put \<open>i < n\<close> show ?case
    unfolding up by (simp add: same_fill_def slot_def)
qed

lemma same_resize:
  assumes "3 \<le> j" "Suc j \<le> 47" "n \<le> 2 ^ j"
  shows "resize hash_same 0 0 (same_table (2 ^ j) n) = Some (Inr (same_table (2 ^ Suc j) n))"
proof -
  let ?T = "same_table (2 ^ j) n"
  have "(2::nat) ^ Suc j \<le> 2 ^ 47" using assms(2) by (intro power_increasing) simp_all
  then have alloc: "\<not> max_slots < length (entries ?T) * 2"
    by (simp add: same_table_def max_slots_def)
  have mask': "(word_of_int (int ((2::nat) ^ j * 2) - 1) :: 64 word) = of_nat (2 ^ Suc j - 1)"
    by (simp add: mask_of_len mask_eq_decr_exp)
  have "same_fill 0 = (\<lambda>i. zero_entry 0 0)"
    by (rule ext) (simp add: same_fill_def)
  then have rep: "map (same_fill 0) [0..<2 ^ Suc j] = replicate (2 ^ j * 2) (zero_entry 0 0)"
    by (simp add: map_replicate_const mult.commute)
  have fresh: "?T\<lparr>entries := replicate (length (entries ?T) * 2) (zero_entry 0 0),
        mask_m := word_of_int (int (length (entries ?T) * 2) - 1), size_m := 0\<rparr>
      = same_table (2 ^ Suc j) 0"
    unfolding same_table_def table_of_def rep using mask' by simp
  have "reinsert (Put hash_same 0 0) (map (same_fill n) [0..<2 ^ j]) (same_table (2 ^ Suc j) 0)
      = Some (Inr (same_table (2 ^ Suc j) n))"
    using assms by (intro same_reinsert) simp_all
  moreover have "entries ?T = map (same_fill n) [0..<2 ^ j]"
    by (simp add: same_table_def table_of_def)
  ultimately show ?thesis
    using alloc fresh by (simp add: resize_def resize_with_def Let_def)
qed

lemma same_Put_resize:
  assumes "3 \<le> j" "Suc j \<le> 47" "n \<le> 2 ^ j" "3 * 2 ^ j < 4 * (n + 1)"
  shows "Put hash_same 0 0 (same_table (2 ^ j) n) n n
    = Some (Inr (same_table (2 ^ Suc j) (Suc n)))"
proof -
  have "over_load (same_table (2 ^ j) n)"
    using assms(4) by (simp add: over_load_same_table)
  moreover have "n < 2 ^ Suc j"
  proof -
    have "(2::nat) ^ j < 2 ^ Suc j" by simp
    with assms(3) show ?thesis by (rule le_less_trans)
  qed
  then have "put_loop (same_table (2 ^ Suc j) n) n n 0 0
      = Some (Inr (same_table (2 ^ Suc j) (Suc n)))"
    using assms(1,2) by (intro same_put_loop) simp_all
  ultimately show ?thesis
    using same_resize [OF assms(1-3)] by (simp add: Put_resize)
qed

lemma put_all_snoc:
  "put_all h zk zv m (kvs @ [(k, v)]) =
     Option.bind (put_all h zk zv m kvs)
       (\<lambda>r. case r of Inl err \<Rightarrow> Some (Inl err) | Inr m' \<Rightarrow> Put h zk zv m' k v)"
proof (induction kvs arbitrary: m)
  case Nil
  show ?case
  proof (cases "Put h zk zv m k v")
    case None
    then show ?thesis by simp
  next
    case (Some a)
    then show ?thesis by (cases a) simp_all
  qed
next
  case (Cons kv kvs)
  obtain k' v' where kv: "kv = (k', v')" by (cases kv)
  show ?case
  proof (cases "Put h zk zv m k' v'")
    case None
    with kv show ?thesis by simp
  next
    case (Some a)
    with kv Cons.IH show ?thesis by (cases a) simp_all
  qed
qed

lemma put_all_reachable:
  assumes "reachable h zk zv m" "put_all h zk zv m kvs = Some (Inr m')"
  shows "reachable h zk zv m'"
  using assms
proof (induction kvs arbitrary: m)
  case Nil
  then show ?case by simp
next
  case (Cons kv kvs)
  obtain k v where kv: "kv = (k, v)" by (cases kv)
  have "\<exists>m1. Put h zk zv m k v = Some (Inr m1) \<and> put_all h zk zv m1 kvs = Some (Inr m')"
  proof (cases "Put h zk zv m k v")
    case None
    with Cons.prems(2) kv show ?thesis by simp
  next
    case (Some a)
    with Cons.prems(2) kv show ?thesis by (cases a) simp_all
  qed
  then obtain m1 where p: "Put h zk zv m k v = Some (Inr m1)"
    and r: "put_all h zk zv m1 kvs = Some (Inr m')" by blast
  from p have "exec h zk zv (CallPut k v) m = Some (Inr (RetUnit, m1))" by (simp add: exec_Put)
  with Cons.prems(1) have "reachable h zk zv m1" by (rule reachable_exec)
  from Cons.IH [OF this r] show ?case .
qed

lemma cap_exp_ge3: "3 \<le> cap_exp n"
  by (induction n) simp_all

lemma cap_exp_ge8: "8 \<le> (2::nat) ^ cap_exp n"
proof -
  have "(2::nat) ^ 3 \<le> 2 ^ cap_exp n"
    by (rule power_increasing) (simp_all add: cap_exp_ge3)
  then show ?thesis by simp
qed

lemma cap_exp_load: "4 * n \<le> 3 * 2 ^ cap_exp n"
proof (induction n)
  case 0
  show ?case by simp
next
  case (Suc n)
  with cap_exp_ge8 [of n] show ?case by simp
qed

text \<open>The table has doubled only when the load-factor test asked for it.\<close>

lemma cap_exp_least: "cap_exp n = 3 \<or> 3 * 2 ^ (cap_exp n - 1) < 4 * n"
proof (induction n)
  case 0
  show ?case by simp
next
  case (Suc n)
  show ?case
  proof (cases "3 * 2 ^ cap_exp n < 4 * (n + 1)")
    case True
    then show ?thesis by simp
  next
    case False
    with Suc show ?thesis by auto
  qed
qed

lemma cap_exp_mono: "cap_exp n \<le> cap_exp (Suc n)"
  by simp

lemma new_is_same_table: "NewRobinHoodMap 0 0 = same_table 8 0"
proof -
  have "same_fill 0 = (\<lambda>i. zero_entry 0 0)"
    by (rule ext) (simp add: same_fill_def)
  then have "map (same_fill 0) [0..<8] = replicate 8 (zero_entry 0 0)"
    by (simp add: map_replicate_const)
  then show ?thesis
    by (simp add: NewRobinHoodMap_def same_table_def table_of_def)
qed

text \<open>The table after \<^verbatim>\<open>Put(i, i)\<close> for \<open>i\<close> from 0 to \<open>n - 1\<close> under \<open>hash_same\<close>.\<close>

lemma same_put_all:
  assumes "cap_exp n \<le> 47"
  shows "put_all hash_same 0 0 (NewRobinHoodMap 0 0) (map (\<lambda>i. (i, i)) [0..<n])
    = Some (Inr (same_table (2 ^ cap_exp n) n))"
  using assms
proof (induction n)
  case 0
  show ?case by (simp add: new_is_same_table)
next
  case (Suc n)
  let ?c = "cap_exp n"
  have c47: "?c \<le> 47" using Suc.prems cap_exp_mono [of n] by simp
  from Suc.IH [OF c47] have run: "put_all hash_same 0 0 (NewRobinHoodMap 0 0)
      (map (\<lambda>i. (i, i)) [0..<n]) = Some (Inr (same_table (2 ^ ?c) n))" .
  have c3: "3 \<le> ?c" by (rule cap_exp_ge3)
  have step: "Put hash_same 0 0 (same_table (2 ^ ?c) n) n n
      = Some (Inr (same_table (2 ^ cap_exp (Suc n)) (Suc n)))"
  proof (cases "3 * 2 ^ ?c < 4 * (n + 1)")
    case True
    then have e: "cap_exp (Suc n) = Suc ?c" by simp
    with Suc.prems have "Suc ?c \<le> 47" by simp
    moreover have "n \<le> 2 ^ ?c" using cap_exp_load [of n] by simp
    ultimately show ?thesis
      unfolding e using c3 True by (intro same_Put_resize)
  next
    case False
    then have e: "cap_exp (Suc n) = ?c" by simp
    from False have "4 * (n + 1) \<le> 3 * 2 ^ ?c" by simp
    with c3 c47 show ?thesis unfolding e by (intro same_Put)
  qed
  have "map (\<lambda>i. (i, i)) [0..<Suc n] = map (\<lambda>i. (i, i)) [0..<n] @ [(n, n)]" by simp
  then show ?case
    using run step by (simp only: put_all_snoc) simp
qed

lemma cap_exp_257: "cap_exp 257 = 9"
proof -
  let ?c = "cap_exp 257"
  have "4 * 257 \<le> 3 * (2::nat) ^ ?c" by (rule cap_exp_load)
  then have "(2::nat) ^ 8 < 2 ^ ?c" by simp
  then have lo: "8 < ?c" by (simp only: power_strict_increasing_iff) 
  have "?c \<noteq> 3" using lo by simp
  with cap_exp_least [of 257] have "3 * (2::nat) ^ (?c - 1) < 4 * 257" by blast
  then have "(2::nat) ^ (?c - 1) < 2 ^ 9" by simp
  then have "?c - 1 < 9" by (simp only: power_strict_increasing_iff)
  with lo show ?thesis by simp
qed

lemma same_table_257_run:
  "put_all hash_same 0 0 (NewRobinHoodMap 0 0) (map (\<lambda>i. (i, i)) [0..<257])
     = Some (Inr (same_table 512 257))"
proof -
  have "cap_exp 257 \<le> 47" by (simp add: cap_exp_257)
  from same_put_all [OF this] have "put_all hash_same 0 0 (NewRobinHoodMap 0 0)
      (map (\<lambda>i. (i, i)) [0..<257]) = Some (Inr (same_table (2 ^ 9) 257))"
    by (simp only: cap_exp_257)
  moreover have "(2::nat) ^ 9 = 512" by simp
  ultimately show ?thesis by (simp only:)
qed

lemma same_table_257_reachable: "reachable hash_same 0 0 (same_table 512 257)"
  using reachable_new same_table_257_run by (rule put_all_reachable)

subsection \<open>Removing the first of 257 colliding keys\<close>

lemma shape_ok_512: "shape_ok (table_of 512 f s)"
  using shape_ok_table_of [of 9 f s] by simp

lemma unat_slot_512: "b < 512 \<Longrightarrow> unat (of_nat b :: 64 word) = b"
  by (simp add: unat_of_nat)

lemma distance_nonzero: "0 < n \<Longrightarrow> n < 256 \<Longrightarrow> (of_nat n :: 8 word) \<noteq> 0"
proof
  assume n: "0 < n" "n < 256" and z: "(of_nat n :: 8 word) = 0"
  from n(2) have "unat (of_nat n :: 8 word) = n" by (simp add: unat_of_nat)
  with z n(1) show False by simp
qed

lemma distance_256: "(256 :: 8 word) = 0"
  by simp

lemma shift_fill_0: "shift_fill 0 = same_fill 257"
  by (rule ext) (simp add: shift_fill_def)

lemma shift_fill_Suc:
  "(shift_fill j)(j := slot (j + 1) (j + 1) (of_nat j)) = shift_fill (Suc j)"
  by (rule ext) (simp add: shift_fill_def)

lemma next_index_512:
  assumes "unat (w :: 64 word) = j" "j + 1 < 512"
  shows "unat ((w + 1) AND mask_m (table_of 512 f s)) = j + 1"
proof -
  have "unat ((w + 1) AND mask_m (table_of 512 f s))
      = (unat w + 1) mod length (entries (table_of 512 f s))"
    using shape_ok_512 by (rule next_index)
  with assms show ?thesis by simp
qed

lemma shift_loop_same:
  assumes "j \<le> 255" "unat index = j" "unat nextIndex = j + 1"
  shows "shift_loop (table_of 512 (shift_fill j) 256) index nextIndex
    = Some (Inr (True, removed_table))"
  using assms
proof (induction "255 - j" arbitrary: j index nextIndex)
  case 0
  then have j: "j = 255" by simp
  let ?T = "table_of 512 (shift_fill 255) 256"
  have "shift_loop ?T index nextIndex =
      Some (Inr (True, ?T\<lparr>entries := (entries ?T)[unat index :=
                            (entries ?T ! unat index)\<lparr>occupied := False\<rparr>]\<rparr>))"
    by (rule shift_loop_stop)
      (simp_all add: 0(4) j shift_fill_def same_fill_def slot_def)
  also have "\<dots> = Some (Inr (True, removed_table))"
    by (simp add: 0(3) j table_of_update removed_table_def)
  finally show ?case unfolding j .
next
  case (Suc n)
  then have jl: "j < 255" by simp
  let ?T = "table_of 512 (shift_fill j) 256"
  let ?ne = "entries ?T ! unat nextIndex"
  let ?next' = "(nextIndex + 1) AND mask_m ?T"
  have ne: "?ne = slot (j + 1) (j + 1) (of_nat (j + 1))"
    using jl by (simp add: Suc(5) shift_fill_def same_fill_def)
  have nz: "distance ?ne \<noteq> 0"
    unfolding ne using jl by (simp add: slot_def distance_nonzero del: of_nat_Suc of_nat_add)
  have nl: "unat nextIndex < length (entries ?T)" using jl by (simp add: Suc(5))
  have occ: "occupied ?ne" unfolding ne by (simp add: slot_def)
  have "shift_loop ?T index nextIndex =
      shift_loop (?T\<lparr>entries := (entries ?T)[unat index :=
          ?ne\<lparr>distance := distance ?ne - 1\<rparr>]\<rparr>) nextIndex ?next'"
    using nl occ nz by (rule shift_loop_move)
  also have "?T\<lparr>entries := (entries ?T)[unat index := ?ne\<lparr>distance := distance ?ne - 1\<rparr>]\<rparr>
      = table_of 512 (shift_fill (Suc j)) 256"
    unfolding ne Suc(4) table_of_update
    by (simp add: slot_def shift_fill_Suc [symmetric])
  also have "shift_loop (table_of 512 (shift_fill (Suc j)) 256) nextIndex ?next'
      = Some (Inr (True, removed_table))"
  proof (rule Suc(1))
    show "n = 255 - Suc j" using Suc(2) by simp
    show "Suc j \<le> 255" using jl by simp
    show "unat nextIndex = Suc j" using Suc(5) by simp
    show "unat ?next' = Suc j + 1"
      using next_index_512 [of nextIndex "j + 1" "shift_fill j" 256] Suc(5) jl by simp
  qed
  finally show ?case .
qed

lemma same_Remove:
  "Remove hash_same (same_table 512 257) 0 = Some (Inr (True, removed_table))"
proof -
  let ?T = "same_table 512 257"
  have e0: "entries ?T ! 0 = slot 0 0 0"
    by (simp add: same_table_def same_fill_def)
  have l0: "unat (0 :: 64 word) < length (entries ?T)" by (simp add: same_table_def)
  have "remove_loop ?T 0 0 0 = shift_loop (?T\<lparr>size_m := size_m ?T - 1\<rparr>) 0 ((0 + 1) AND mask_m ?T)"
    using l0 by (rule remove_loop_hit) (simp_all add: e0 slot_def)
  also have "?T\<lparr>size_m := size_m ?T - 1\<rparr> = table_of 512 (shift_fill 0) 256"
    by (simp add: same_table_def table_of_size_update shift_fill_0)
  also have "shift_loop (table_of 512 (shift_fill 0) 256) 0 ((0 + 1) AND mask_m ?T)
      = Some (Inr (True, removed_table))"
  proof (rule shift_loop_same)
    show "unat ((0 + 1) AND mask_m ?T) = 0 + 1"
      unfolding same_table_def using next_index_512 [of 0 0 "same_fill 257" 257] by simp
  qed simp_all
  finally show ?thesis by (simp add: Remove_def)
qed

lemma same_Get_before:
  "Get hash_same 0 (same_table 512 257) 256 = Some (Inr (256, True))"
proof -
  let ?T = "same_table 512 257"
  have sh: "shape_ok ?T" unfolding same_table_def by (rule shape_ok_512)
  have u: "unat (of_nat 256 :: 64 word) = 256" by simp
  have "get_loop 0 ?T 256 (of_nat 0) 0 = get_loop 0 ?T 256 (of_nat 256) (of_nat 256)"
  proof (rule get_walk [OF sh])
    show "occupied (entries ?T ! i) \<and> key (entries ?T ! i) \<noteq> 256 \<and>
        distance (entries ?T ! i) = of_nat i" if "0 \<le> i" "i < 256" for i
      using that by (simp add: same_table_def same_fill_def slot_def)
  qed (simp_all add: same_table_def)
  also have "\<dots> = Some (Inr (val (entries ?T ! unat (of_nat 256 :: 64 word)), True))"
    by (rule get_loop_hit) (simp_all add: u same_table_def same_fill_def slot_def)
  finally show ?thesis
    by (simp add: Get_def same_table_def same_fill_def slot_def)
qed

lemma removed_table_slot:
  "i < 255 \<Longrightarrow> entries removed_table ! i = slot (i + 1) (i + 1) (of_nat i)"
  "entries removed_table ! 255 = (slot 255 255 255)\<lparr>occupied := False\<rparr>"
  "entries removed_table ! 256 = slot 256 256 0"
  by (simp_all add: removed_table_def shift_fill_def same_fill_def distance_256)

lemma removed_Get:
  "Get hash_same 0 removed_table 256 = Some (Inr (0, False))"
proof -
  have sh: "shape_ok removed_table" unfolding removed_table_def by (rule shape_ok_512)
  have len: "length (entries removed_table) = 512" by (simp add: removed_table_def)
  have u: "unat (of_nat 255 :: 64 word) = 255" by simp
  have "get_loop 0 removed_table 256 (of_nat 0) 0
      = get_loop 0 removed_table 256 (of_nat 255) (of_nat 255)"
  proof (rule get_walk [OF sh])
    show "occupied (entries removed_table ! i) \<and> key (entries removed_table ! i) \<noteq> 256 \<and>
        distance (entries removed_table ! i) = of_nat i" if "0 \<le> i" "i < 255" for i
      using that by (simp add: removed_table_slot slot_def)
  qed (simp_all add: len)
  also have "\<dots> = Some (Inr (0, False))"
    by (rule get_loop_stop) (simp_all add: u len removed_table_slot slot_def)
  finally show ?thesis by (simp add: Get_def)
qed

lemma removed_Put:
  "Put hash_same 0 0 removed_table 256 7 = Some (Inr doubled_key_table)"
proof -
  have sh: "shape_ok removed_table" unfolding removed_table_def by (rule shape_ok_512)
  have len: "length (entries removed_table) = 512" by (simp add: removed_table_def)
  have u: "unat (of_nat 255 :: 64 word) = 255" by simp
  have "\<not> over_load removed_table"
    by (simp add: over_load_def removed_table_def)
  then have "Put hash_same 0 0 removed_table 256 7 = put_loop removed_table 256 7 (of_nat 0) 0"
    by (simp add: Put_no_resize)
  also have "\<dots> = put_loop removed_table 256 7 (of_nat 255) (of_nat 255)"
  proof (rule put_walk [OF sh])
    show "occupied (entries removed_table ! i) \<and> key (entries removed_table ! i) \<noteq> 256 \<and>
        distance (entries removed_table ! i) = of_nat i" if "0 \<le> i" "i < 255" for i
      using that by (simp add: removed_table_slot slot_def)
  qed (simp_all add: len)
  also have "\<dots> = Some (Inr (removed_table\<lparr>entries := (entries removed_table)
        [unat (of_nat 255 :: 64 word) := \<lparr>key = 256, val = 7, distance = of_nat 255, occupied = True\<rparr>],
      size_m := size_m removed_table + 1\<rparr>))"
    by (rule put_loop_free) (simp_all add: u len removed_table_slot slot_def)
  also have "\<dots> = Some (Inr doubled_key_table)"
    by (simp add: removed_table_def doubled_key_table_def table_of_def map_upt_update slot_def)
  finally show ?thesis .
qed

text \<open>
  C6 fails on the code: after \<^verbatim>\<open>Put\<close> of 257 keys with one hash value the table has 512
  slots, and slot 256 holds a key with home bucket 0 and the stored distance 0, not 256.
  The \<^verbatim>\<open>uint8\<close> distance of the candidate wrapped from 255 to 0 on its way.
\<close>

theorem C6_distance_wraps:
  "put_all hash_same 0 0 (NewRobinHoodMap 0 0) (map (\<lambda>i. (i, i)) [0..<257])
     = Some (Inr (same_table 512 257)) \<and>
   reachable hash_same 0 0 (same_table 512 257) \<and>
   length (entries (same_table 512 257)) = 512 \<and>
   occupied (entries (same_table 512 257) ! 256) \<and>
   key (entries (same_table 512 257) ! 256) = 256 \<and>
   home hash_same (same_table 512 257) 256 = 0 \<and>
   distance (entries (same_table 512 257) ! 256) = 0 \<and>
   (256 + 512 - home hash_same (same_table 512 257) 256) mod 512 = 256"
  using same_table_257_run same_table_257_reachable
  by (simp add: same_table_def same_fill_def slot_def home_def distance_256)

text \<open>
  C3 fails on the code: on that table \<^verbatim>\<open>Get(256)\<close> finds the key, \<^verbatim>\<open>Remove(0)\<close> returns
  true, and afterwards \<^verbatim>\<open>Get(256)\<close> reports the key missing. The backward shift stops in
  front of slot 256, whose stored distance is 0, and frees slot 255 on the key's probe
  path.
\<close>

theorem C3_remove_loses_key:
  "reachable hash_same 0 0 (same_table 512 257) \<and>
   Get hash_same 0 (same_table 512 257) 256 = Some (Inr (256, True)) \<and>
   Remove hash_same (same_table 512 257) 0 = Some (Inr (True, removed_table)) \<and>
   Get hash_same 0 removed_table 256 = Some (Inr (0, False))"
  using same_table_257_reachable same_Get_before same_Remove removed_Get by blast

lemma doubled_key_run:
  "exec_all hash_same 0 0 [CallRemove 0, CallPut 256 7] (same_table 512 257)
     = Some (Inr doubled_key_table)"
  by (simp add: exec_def same_Remove removed_Put)

text \<open>
  C9 fails on the code: after that \<^verbatim>\<open>Remove(0)\<close> the key 256 still sits in slot 256, and
  \<^verbatim>\<open>Put(256, 7)\<close> does not find it and stores it a second time, in slot 255.
\<close>

theorem C9_key_in_two_slots:
  "exec_all hash_same 0 0 [CallRemove 0, CallPut 256 7] (same_table 512 257)
     = Some (Inr doubled_key_table) \<and>
   reachable hash_same 0 0 doubled_key_table \<and>
   occupied (entries doubled_key_table ! 255) \<and>
   key (entries doubled_key_table ! 255) = 256 \<and>
   occupied (entries doubled_key_table ! 256) \<and>
   key (entries doubled_key_table ! 256) = 256"
proof -
  have "reachable hash_same 0 0 doubled_key_table"
    using same_table_257_reachable doubled_key_run by (rule exec_all_reachable)
  with doubled_key_run show ?thesis
    by (simp add: doubled_key_table_def shift_fill_def same_fill_def slot_def)
qed

end
